theory Spec2Isabelle
  imports Main "HOL-Library.Word" "HOL-Library.Monad_Syntax"
begin

section \<open>Values of the program\<close>

text \<open>
  The client is the second file of \<^verbatim>\<open>src/client.go\<close> (package ftp, the one that
  imports bufio and regexp). Go strings are byte sequences: \<^typ>\<open>string\<close>. Go's
  \<^verbatim>\<open>uint\<close> and \<^verbatim>\<open>int\<close> are taken at 64 bits: \<^verbatim>\<open>uint\<close> is a 64-bit
  word, an \<^verbatim>\<open>int\<close> is an \<^typ>\<open>int\<close> that the library functions below keep
  inside the signed 64-bit range, and the one place where the program computes on
  \<^verbatim>\<open>int\<close>s (the port) has its wrap-around written out.
\<close>

type_synonym uint = "64 word"

text \<open>
  Every error of the program is a Go \<^verbatim>\<open>error\<close> value. \<open>Errorf m\<close> is the error
  that \<^verbatim>\<open>fmt.Errorf\<close> makes of the message \<open>m\<close>: the program passes it a ready
  message and no operands (the text of the error is then \<open>m\<close> whenever \<open>m\<close> has no
  percent sign); only \<^verbatim>\<open>Dial\<close> passes a format and one operand, and there \<open>m\<close>
  is the format with the operand printed in. \<open>EOF\<close> and \<open>ErrNoProgress\<close> are
  the values of package io, \<open>NetError\<close> is any error of the transport or of the local
  file system, \<open>ErrSyntax\<close> and \<open>ErrRange\<close> are the two \<^verbatim>\<open>strconv.NumError\<close>s
  of \<^verbatim>\<open>Atoi\<close>, each with the text that failed to parse.
\<close>

datatype error =
    Errorf string
  | EOF
  | ErrNoProgress
  | NetError string
  | ErrSyntax string
  | ErrRange string

text \<open>What \<^verbatim>\<open>%v\<close> prints for an error: its text.\<close>

fun error_text :: "error \<Rightarrow> string" where
  "error_text (Errorf m) = m"
| "error_text EOF = ''EOF''"
| "error_text ErrNoProgress = ''multiple Read calls return no data or error''"
| "error_text (NetError m) = m"
| "error_text (ErrSyntax s) = ''strconv.Atoi: parsing \"'' @ s @ ''\": invalid syntax''"
| "error_text (ErrRange s) = ''strconv.Atoi: parsing \"'' @ s @ ''\": value out of range''"

text \<open>A function that can panic either returns or panics.\<close>

datatype 'a outcome = Returns 'a | Panics

definition CR :: char where "CR = CHR 0x0D"
definition LF :: char where "LF = CHR 0x0A"

definition CRLF :: string where
  "CRLF = [CR, LF]"

definition ASCII :: string where "ASCII = ''A''"
definition BINARY :: string where "BINARY = ''I''"
definition IMAGE :: string where "IMAGE = ''I''"

section \<open>Library functions the program calls\<close>

subsection \<open>Decimal digits: \<^verbatim>\<open>strconv.Atoi\<close> and \<^verbatim>\<open>%d\<close>\<close>

definition is_digit :: "char \<Rightarrow> bool" where
  "is_digit c = (48 \<le> (of_char c :: nat) \<and> (of_char c :: nat) \<le> 57)"

definition digit_val :: "char \<Rightarrow> nat" where
  "digit_val c = of_char c - 48"

text \<open>The number a string of decimal digits denotes (leading zeros allowed).\<close>

definition dec_val :: "string \<Rightarrow> nat" where
  "dec_val s = foldl (\<lambda>n c. 10 * n + digit_val c) 0 s"

text \<open>
  \<^verbatim>\<open>strconv.Atoi(s)\<close>, which is \<^verbatim>\<open>ParseInt(s, 10, 0)\<close>: an optional sign, then
  one or more decimal digits and nothing else. A text that is not of this form gives
  \<open>0\<close> and a syntax error; a number outside the \<^verbatim>\<open>int\<close> range gives the nearest
  bound of the range and a range error.
\<close>

definition Atoi :: "string \<Rightarrow> int \<times> error option" where
  "Atoi s =
     (let neg = (s \<noteq> [] \<and> hd s = CHR ''-'');
          body = (if s \<noteq> [] \<and> (hd s = CHR ''-'' \<or> hd s = CHR ''+'') then tl s else s)
      in if body = [] \<or> \<not> list_all is_digit body then (0, Some (ErrSyntax s))
         else let n = dec_val body
              in if \<not> neg \<and> 2 ^ 63 \<le> n then (2 ^ 63 - 1, Some (ErrRange s))
                 else if neg \<and> 2 ^ 63 < n then (- (2 ^ 63), Some (ErrRange s))
                 else (if neg then - int n else int n, None))"

text \<open>\<^verbatim>\<open>fmt.Sprintf("%d", n)\<close> for an unsigned \<open>n\<close>.\<close>

fun dec :: "nat \<Rightarrow> string" where
  "dec n = (if n < 10 then [''0123456789'' ! n]
            else dec (n div 10) @ [''0123456789'' ! (n mod 10)])"

declare dec.simps [simp del]

subsection \<open>Package strings\<close>

text \<open>
  \<^verbatim>\<open>strings.LastIndex(s, sep)\<close> for a separator of one byte: the index of its
  last occurrence, \<open>-1\<close> when there is none.
\<close>

fun last_index_from :: "int \<Rightarrow> int \<Rightarrow> string \<Rightarrow> char \<Rightarrow> int" where
  "last_index_from i found [] c = found"
| "last_index_from i found (x # xs) c =
     last_index_from (i + 1) (if x = c then i else found) xs c"

definition LastIndex :: "string \<Rightarrow> char \<Rightarrow> int" where
  "LastIndex s c = last_index_from 0 (- 1) s c"

text \<open>
  \<^verbatim>\<open>strings.Split(s, sep)\<close> for a separator of one byte: the pieces between the
  occurrences of the separator, one more piece than there are separators.
\<close>

fun Split :: "string \<Rightarrow> char \<Rightarrow> string list" where
  "Split [] c = [[]]"
| "Split (x # xs) c =
     (if x = c then [] # Split xs c
      else (case Split xs c of p # ps \<Rightarrow> (x # p) # ps | [] \<Rightarrow> [[x]]))"

subsection \<open>The two regular expressions\<close>

text \<open>
  \<^verbatim>\<open>regexp.MustCompile("[0-9][0-9][0-9] ").MatchString(ln)\<close>: the expression has
  no anchor, so it matches when three digits and a space stand anywhere in \<open>ln\<close>.
\<close>

fun terminal_here :: "string \<Rightarrow> bool" where
  "terminal_here (a # b # c # d # _) = (is_digit a \<and> is_digit b \<and> is_digit c \<and> d = CHR '' '')"
| "terminal_here _ = False"

fun MatchString_terminal :: "string \<Rightarrow> bool" where
  "MatchString_terminal [] = False"
| "MatchString_terminal (x # xs) = (terminal_here (x # xs) \<or> MatchString_terminal xs)"

text \<open>
  The port pattern \<^verbatim>\<open>[0-9]+,[0-9]+,[0-9]+,[0-9]+,([0-9]+,[0-9]+)\<close>. A group
  \<^verbatim>\<open>[0-9]+\<close> is greedy; a digit is never a comma, so a match attempt that starts
  at a given place has one way to go: each group takes the whole run of digits in
  front of it.
\<close>

definition digits1 :: "string \<Rightarrow> (string \<times> string) option" where
  "digits1 s =
     (if takeWhile is_digit s = [] then None
      else Some (takeWhile is_digit s, dropWhile is_digit s))"

fun comma :: "string \<Rightarrow> string option" where
  "comma [] = None"
| "comma (c # r) = (if c = CHR '','' then Some r else None)"

text \<open>
  A match attempt at the start of \<open>s\<close>: the whole match and the text of the group in
  parentheses, as \<^verbatim>\<open>FindStringSubmatch\<close> lists them.
\<close>

definition port_match_here :: "string \<Rightarrow> string list option" where
  "port_match_here s =
     do {
       (h1, r1) \<leftarrow> digits1 s;  r1' \<leftarrow> comma r1;
       (h2, r2) \<leftarrow> digits1 r1'; r2' \<leftarrow> comma r2;
       (h3, r3) \<leftarrow> digits1 r2'; r3' \<leftarrow> comma r3;
       (h4, r4) \<leftarrow> digits1 r3'; r4' \<leftarrow> comma r4;
       (p1, r5) \<leftarrow> digits1 r4'; r5' \<leftarrow> comma r5;
       (p2, r6) \<leftarrow> digits1 r5';
       Some [h1 @ '','' @ h2 @ '','' @ h3 @ '','' @ h4 @ '','' @ p1 @ '','' @ p2,
             p1 @ '','' @ p2]
     }"

text \<open>
  \<^verbatim>\<open>re.FindStringSubmatch(line)\<close>: the match that starts leftmost, the empty
  list (Go's nil) when there is none.
\<close>

fun FindStringSubmatch_port :: "string \<Rightarrow> string list" where
  "FindStringSubmatch_port [] = []"
| "FindStringSubmatch_port (x # xs) =
     (case port_match_here (x # xs) of
        Some m \<Rightarrow> m
      | None \<Rightarrow> FindStringSubmatch_port xs)"

section \<open>The pure functions of the client\<close>

text \<open>\<^verbatim>\<open>hasPort\<close> (line 510).\<close>

definition hasPort :: "string \<Rightarrow> bool" where
  "hasPort s = (LastIndex s (CHR '':'') > LastIndex s (CHR '']''))"

text \<open>\<^verbatim>\<open>checkResponseCode\<close> (lines 475 to 483).\<close>

definition checkResponseCode :: "uint \<Rightarrow> uint \<Rightarrow> error option" where
  "checkResponseCode expectCode code =
     (if 1 \<le> expectCode \<and> expectCode < 10 \<and> code div 100 \<noteq> expectCode \<or>
         10 \<le> expectCode \<and> expectCode < 100 \<and> code div 10 \<noteq> expectCode \<or>
         100 \<le> expectCode \<and> expectCode < 1000 \<and> code \<noteq> expectCode
      then Some (Errorf (''Bad response from server. Expected: '' @ dec (unat expectCode)
                          @ '', Got: '' @ dec (unat code)))
      else None)"

text \<open>
  \<^verbatim>\<open>extractDataPort\<close> (lines 487 to 505). The pattern is a constant that compiles,
  so the first error return is never taken. Both results of \<^verbatim>\<open>Atoi\<close> are used
  without a look at their errors. The sum is computed on \<^verbatim>\<open>int\<close> and converted
  to \<^verbatim>\<open>uint\<close>: together that is the sum modulo \<open>2 ^ 64\<close>. The two indexings
  \<^verbatim>\<open>match[1]\<close> and \<^verbatim>\<open>octets[1]\<close> are in range whenever there is a match
  (lemmas \<open>port_match_here_length\<close> and \<open>Split_group\<close> below).
\<close>

definition extractDataPort :: "string \<Rightarrow> error + uint" where
  "extractDataPort line =
     (let match = FindStringSubmatch_port line
      in if length match = 0
         then Inl (Errorf (''Cannot find data port in server output: '' @ line))
         else let octets = Split (match ! 1) (CHR '','');
                  firstOctet = fst (Atoi (octets ! 0));
                  secondOctet = fst (Atoi (octets ! 1))
              in Inr (word_of_int (firstOctet * 256 + secondOctet)))"

section \<open>Connections\<close>

text \<open>
  The control connection is an \<^verbatim>\<open>io.ReadWriteCloser\<close>, in fact the
  \<^verbatim>\<open>net.Conn\<close> that \<^verbatim>\<open>net.Dial\<close> returned; a data connection is a
  \<^verbatim>\<open>net.Conn\<close> too, and a local file is read, written and closed the same way.
  The state of one is what the peer will deliver to the coming reads (\<open>incoming\<close>:
  each event is the bytes that one read finds available, or the error it meets), the
  bytes written so far (\<open>outgoing\<close>), the outcome of the coming writes (\<open>wfaults\<close>;
  when the list is used up every write succeeds), the error \<^verbatim>\<open>Close\<close> will
  report (\<open>cfault\<close>) and whether it has been closed. When \<open>incoming\<close> is used up the
  peer has closed its side: a read that would wait forever does not exist in this
  model. Deadlines are real time and are not modelled.
\<close>

datatype read_event = Data string | Fault error

record channel =
  incoming :: "read_event list"
  outgoing :: string
  wfaults :: "error option list"
  cfault :: "error option"
  closed :: bool

definition ErrClosed :: error where
  "ErrClosed = NetError ''use of closed network connection''"

text \<open>
  \<^verbatim>\<open>Read(p)\<close> with \<open>n = len(p)\<close>: the bytes read and the error. It takes what is
  available, at most \<open>n\<close> bytes, and leaves the rest of the event for the next read.
\<close>

definition conn_Read :: "nat \<Rightarrow> channel \<Rightarrow> (string \<times> error option) \<times> channel" where
  "conn_Read n ch =
     (if closed ch then (([], Some ErrClosed), ch)
      else case incoming ch of
             [] \<Rightarrow> (([], Some EOF), ch)
           | Fault e # rest \<Rightarrow> (([], Some e), ch\<lparr>incoming := rest\<rparr>)
           | Data bs # rest \<Rightarrow>
               if length bs \<le> n then ((bs, None), ch\<lparr>incoming := rest\<rparr>)
               else ((take n bs, None), ch\<lparr>incoming := Data (drop n bs) # rest\<rparr>))"

definition conn_Write :: "string \<Rightarrow> channel \<Rightarrow> error option \<times> channel" where
  "conn_Write bs ch =
     (if closed ch then (Some ErrClosed, ch)
      else case wfaults ch of
             [] \<Rightarrow> (None, ch\<lparr>outgoing := outgoing ch @ bs\<rparr>)
           | None # fs \<Rightarrow> (None, ch\<lparr>outgoing := outgoing ch @ bs, wfaults := fs\<rparr>)
           | Some e # fs \<Rightarrow> (Some e, ch\<lparr>wfaults := fs\<rparr>))"

definition conn_Close :: "channel \<Rightarrow> error option \<times> channel" where
  "conn_Close ch =
     (if closed ch then (Some ErrClosed, ch)
      else (cfault ch, ch\<lparr>closed := True\<rparr>))"

text \<open>What is still to be read from a connection, as a size: bytes and events.\<close>

fun event_size :: "read_event \<Rightarrow> nat" where
  "event_size (Data bs) = Suc (length bs)"
| "event_size (Fault e) = 1"

definition pending_size :: "channel \<Rightarrow> nat" where
  "pending_size ch = sum_list (map event_size (incoming ch))"

subsection \<open>\<^verbatim>\<open>bufio.Reader\<close>\<close>

text \<open>
  A \<^verbatim>\<open>bufio.Reader\<close> holds the bytes it has read from the connection and not yet
  handed out (\<open>buf\<close>, Go's \<^verbatim>\<open>b.buf[b.r:b.w]\<close>) and the error of its last read
  (\<open>rerr\<close>, Go's \<^verbatim>\<open>b.err\<close>). \<^verbatim>\<open>bufio.NewReader\<close> gives it a buffer of 4096
  bytes.
\<close>

record reader =
  buf :: string
  rerr :: "error option"

definition defaultBufSize :: nat where
  "defaultBufSize = 4096"

definition maxConsecutiveEmptyReads :: nat where
  "maxConsecutiveEmptyReads = 100"

definition NewReader :: reader where
  "NewReader = \<lparr>buf = [], rerr = None\<rparr>"

text \<open>
  \<^verbatim>\<open>fill\<close>: one read from the connection into the free part of the buffer,
  repeated while it brings neither a byte nor an error, at most a hundred times.
\<close>

fun fill_tries :: "nat \<Rightarrow> reader \<Rightarrow> channel \<Rightarrow> reader \<times> channel" where
  "fill_tries 0 b ch = (b\<lparr>rerr := Some ErrNoProgress\<rparr>, ch)"
| "fill_tries (Suc i) b ch =
     (case conn_Read (defaultBufSize - length (buf b)) ch of
        ((bs, Some e), ch') \<Rightarrow> (b\<lparr>buf := buf b @ bs, rerr := Some e\<rparr>, ch')
      | ((bs, None), ch') \<Rightarrow>
          if bs \<noteq> [] then (b\<lparr>buf := buf b @ bs\<rparr>, ch') else fill_tries i b ch')"

definition fill :: "reader \<Rightarrow> channel \<Rightarrow> reader \<times> channel" where
  "fill b ch = fill_tries maxConsecutiveEmptyReads b ch"

lemma fill_tries_progress:
  "fill_tries i b ch = (b', ch') \<Longrightarrow>
     (rerr b' \<noteq> None \<and> pending_size ch' \<le> pending_size ch) \<or> pending_size ch' < pending_size ch"
proof (induction i arbitrary: ch)
  case 0
  then show ?case by auto
next
  case (Suc i)
  obtain bs e ch1 where r: "conn_Read (defaultBufSize - length (buf b)) ch = ((bs, e), ch1)"
    by (metis prod.exhaust)
  have le: "pending_size ch1 \<le> pending_size ch"
    using r by (auto simp: conn_Read_def pending_size_def split: if_splits list.splits read_event.splits)
  have lt: "e = None \<Longrightarrow> bs \<noteq> [] \<Longrightarrow> pending_size ch1 < pending_size ch"
    using r by (auto simp: conn_Read_def pending_size_def split: if_splits list.splits read_event.splits)
  show ?case
  proof (cases e)
    case (Some x)
    with Suc.prems r le show ?thesis by auto
  next
    case None
    show ?thesis
    proof (cases "bs = []")
      case True
      with None Suc.prems r have "fill_tries i b ch1 = (b', ch')" by simp
      from Suc.IH [OF this] le show ?thesis by auto
    next
      case False
      with None Suc.prems r lt show ?thesis by auto
    qed
  qed
qed

lemma fill_tries_total_size:
  "fill_tries i b ch = (b', ch') \<Longrightarrow>
     length (buf b') + pending_size ch' \<le> length (buf b) + pending_size ch"
proof (induction i arbitrary: ch)
  case 0
  then show ?case by auto
next
  case (Suc i)
  obtain bs e ch1 where r: "conn_Read (defaultBufSize - length (buf b)) ch = ((bs, e), ch1)"
    by (metis prod.exhaust)
  have le: "length bs + pending_size ch1 \<le> pending_size ch"
    using r by (auto simp: conn_Read_def pending_size_def split: if_splits list.splits read_event.splits)
  show ?case
  proof (cases "e = None \<and> bs = []")
    case True
    with Suc.prems r have "fill_tries i b ch1 = (b', ch')" by simp
    from Suc.IH [OF this] le show ?thesis by simp
  next
    case False
    with Suc.prems r le show ?thesis by (cases e) auto
  qed
qed

text \<open>
  \<^verbatim>\<open>ReadString('\n')\<close>, that is \<^verbatim>\<open>ReadSlice\<close> under \<^verbatim>\<open>collectFragments\<close>:
  hand out the buffered bytes up to the first line feed; when there is none, report
  the pending error with whatever is buffered, or set a full buffer aside (\<open>acc\<close>)
  and go on, or fill the buffer and look again.
\<close>

function ReadString_loop ::
  "string \<Rightarrow> reader \<Rightarrow> channel \<Rightarrow> (string \<times> error option) \<times> reader \<times> channel" where
  "ReadString_loop acc b ch =
     (if LF \<in> set (buf b)
      then ((acc @ takeWhile (\<lambda>x. x \<noteq> LF) (buf b) @ [LF], None),
            b\<lparr>buf := tl (dropWhile (\<lambda>x. x \<noteq> LF) (buf b))\<rparr>, ch)
      else case rerr b of
             Some e \<Rightarrow> ((acc @ buf b, Some e), b\<lparr>buf := [], rerr := None\<rparr>, ch)
           | None \<Rightarrow>
               if defaultBufSize \<le> length (buf b)
               then ReadString_loop (acc @ buf b) (b\<lparr>buf := []\<rparr>) ch
               else case fill b ch of (b', ch') \<Rightarrow> ReadString_loop acc b' ch')"
  by pat_completeness auto
termination
proof (relation "measure (\<lambda>(acc, b, ch).
    4 * pending_size ch + (if rerr b = None then 2 else 0)
      + (if defaultBufSize \<le> length (buf b) then 1 else 0))", goal_cases)
  case 1
  show ?case by simp
next
  case (2 acc b ch)
  then show ?case by (simp add: defaultBufSize_def)
next
  case (3 acc b ch b' ch')
  then have f: "fill b ch = (b', ch')"
    by simp
  then have "fill_tries maxConsecutiveEmptyReads b ch = (b', ch')"
    by (simp add: fill_def)
  from fill_tries_progress [OF this] 3(2) show ?case
    by (auto simp: f)
qed

declare ReadString_loop.simps [simp del]

definition ReadString :: "reader \<Rightarrow> channel \<Rightarrow> (string \<times> error option) \<times> reader \<times> channel" where
  "ReadString b ch = ReadString_loop [] b ch"

lemma ReadString_loop_consumes:
  "ReadString_loop acc b ch = ((ln, None), b', ch') \<Longrightarrow>
     length (buf b') + pending_size ch' < length (buf b) + pending_size ch"
proof (induction acc b ch rule: ReadString_loop.induct)
  case (1 acc b ch)
  show ?case
  proof (cases "LF \<in> set (buf b)")
    case True
    then have "dropWhile (\<lambda>x. x \<noteq> LF) (buf b) \<noteq> []"
      by simp
    then have "length (tl (dropWhile (\<lambda>x. x \<noteq> LF) (buf b))) < length (dropWhile (\<lambda>x. x \<noteq> LF) (buf b))"
      by simp
    also have "\<dots> \<le> length (buf b)"
      by (rule length_dropWhile_le)
    finally have "length (tl (dropWhile (\<lambda>x. x \<noteq> LF) (buf b))) < length (buf b)" .
    moreover have "b' = b\<lparr>buf := tl (dropWhile (\<lambda>x. x \<noteq> LF) (buf b))\<rparr>" and "ch' = ch"
      using "1.prems" True by (simp_all add: ReadString_loop.simps [of acc b ch])
    ultimately show ?thesis by simp
  next
    case noLF: False
    show ?thesis
    proof (cases "rerr b")
      case (Some e)
      with "1.prems" noLF show ?thesis
        by (simp add: ReadString_loop.simps [of acc b ch])
    next
      case None
      show ?thesis
      proof (cases "defaultBufSize \<le> length (buf b)")
        case True
        with "1.prems" noLF None
        have "ReadString_loop (acc @ buf b) (b\<lparr>buf := []\<rparr>) ch = ((ln, None), b', ch')"
          by (simp add: ReadString_loop.simps [of acc b ch])
        from "1.IH"(1) [OF noLF None True this] show ?thesis by simp
      next
        case False
        obtain b1 ch1 where f: "fill b ch = (b1, ch1)"
          by (metis prod.exhaust)
        with "1.prems" noLF None False
        have "ReadString_loop acc b1 ch1 = ((ln, None), b', ch')"
          by (simp add: ReadString_loop.simps [of acc b ch])
        from "1.IH"(2) [OF noLF None False f [symmetric] this]
        have "length (buf b') + pending_size ch' < length (buf b1) + pending_size ch1" .
        moreover have "length (buf b1) + pending_size ch1 \<le> length (buf b) + pending_size ch"
          using f fill_tries_total_size [of maxConsecutiveEmptyReads b ch b1 ch1]
          by (simp add: fill_def)
        ultimately show ?thesis by simp
      qed
    qed
  qed
qed

section \<open>The control session\<close>

record connection =
  control :: channel
  hostname :: string

text \<open>
  The loop of \<^verbatim>\<open>Cmd\<close> (lines 164 to 174): read a line, give up on an error, add
  the line to the response, stop when the line matches the pattern. The reader is
  returned beside the connection so that what it still holds can be seen.
\<close>

function Cmd_loop ::
  "string \<Rightarrow> reader \<Rightarrow> channel \<Rightarrow> (error + string) \<times> reader \<times> channel" where
  "Cmd_loop response b ch =
     (case ReadString b ch of
        ((ln, Some e), b', ch') \<Rightarrow> (Inl e, b', ch')
      | ((ln, None), b', ch') \<Rightarrow>
          if MatchString_terminal ln then (Inr (response @ ln), b', ch')
          else Cmd_loop (response @ ln) b' ch')"
  by pat_completeness auto
termination
proof (relation "measure (\<lambda>(response, b, ch). length (buf b) + pending_size ch)", goal_cases)
  case 1
  show ?case by simp
next
  case 2
  then show ?case
    using ReadString_loop_consumes [of "[]"] by (auto simp: ReadString_def dest: sym)
qed

declare Cmd_loop.simps [simp del]

text \<open>
  \<^verbatim>\<open>Cmd\<close> (lines 151 to 180). The reader is made anew in every call and is dropped
  at the end with whatever it holds. The loop ends only after a line that matches the
  pattern, which has four bytes at least, so the slice \<^verbatim>\<open>response[0:3]\<close> is in
  range (lemma \<open>MatchString_terminal_length\<close>).
\<close>

definition Cmd :: "connection \<Rightarrow> string \<Rightarrow> string \<Rightarrow> (uint \<times> string \<times> error option) \<times> connection" where
  "Cmd c command arg =
     (let formattedCommand = command @ '' '' @ arg @ CRLF
      in case conn_Write formattedCommand (control c) of
           (Some e, ch) \<Rightarrow> ((0, [], Some e), c\<lparr>control := ch\<rparr>)
         | (None, ch) \<Rightarrow>
             (case Cmd_loop [] NewReader ch of
                (Inl e, b', ch') \<Rightarrow> ((0, [], Some e), c\<lparr>control := ch'\<rparr>)
              | (Inr response, b', ch') \<Rightarrow>
                  (case Atoi (take 3 response) of
                     (t, Some e) \<Rightarrow> ((0, response, Some e), c\<lparr>control := ch'\<rparr>)
                   | (t, None) \<Rightarrow> ((word_of_int t, response, None), c\<lparr>control := ch'\<rparr>))))"

text \<open>
  \<^verbatim>\<open>Login\<close> (lines 183 to 197). The error of the \<^verbatim>\<open>USER\<close> exchange is put in
  \<^verbatim>\<open>err\<close> and overwritten by the \<^verbatim>\<open>PASS\<close> exchange before anything reads it.
\<close>

definition Login :: "connection \<Rightarrow> string \<Rightarrow> string \<Rightarrow> error option \<times> connection" where
  "Login c user password =
     (if user = [] then (Some (Errorf ''FTP Connection Error: User can not be blank!''), c)
      else if password = []
      then (Some (Errorf ''FTP Connection Error: Password can not be blank!''), c)
      else case Cmd c ''USER'' user of
             ((_, _, err), c1) \<Rightarrow>
               (case Cmd c1 ''PASS'' password of
                  ((_, _, err), c2) \<Rightarrow> (err, c2)))"

text \<open>\<^verbatim>\<open>Logout\<close> (lines 199 to 209).\<close>

definition Logout :: "connection \<Rightarrow> error option \<times> connection" where
  "Logout c =
     (case Cmd c ''QUIT'' [] of
        ((_, _, Some e), c1) \<Rightarrow> (Some e, c1)
      | ((_, _, None), c1) \<Rightarrow>
          (case conn_Close (control c1) of
             (err, ch) \<Rightarrow> (err, c1\<lparr>control := ch\<rparr>)))"

section \<open>The world outside the session\<close>

text \<open>
  \<open>net w addr\<close> is what \<^verbatim>\<open>net.Dial("tcp", addr)\<close> gives in the world \<open>w\<close>: an
  error, or a fresh connection in its first state; \<open>files w name\<close> is what
  \<^verbatim>\<open>os.OpenFile(name, ...)\<close> gives. \<open>dialled\<close> lists the addresses dialled so
  far. \<open>data_conn\<close> and \<open>local_file\<close> are the data connection and the local file of the last
  transfer that got one, in the state the transfer left them.
\<close>

record world =
  net :: "string \<Rightarrow> error + channel"
  files :: "string \<Rightarrow> error + channel"
  dialled :: "string list"
  data_conn :: "channel option"
  local_file :: "channel option"

text \<open>
  \<^verbatim>\<open>Dial\<close> (lines 113 to 144). The welcome message is one read into a buffer of
  1024 zero bytes; the error of \<^verbatim>\<open>Atoi\<close> is overwritten by the classification.
  \<^verbatim>\<open>strings.Split\<close> returns one piece at least, so \<^verbatim>\<open>hostParts[0]\<close> is in
  range.
\<close>

definition Dial :: "string \<Rightarrow> world \<Rightarrow> (error + connection) \<times> world" where
  "Dial host w =
     (if host = [] then (Inl (Errorf ''FTP Connection Error: Host can not be blank!''), w)
      else if \<not> hasPort host
      then (Inl (Errorf ''FTP Connection Error: Host must have a port! e.g. host:21''), w)
      else let w1 = w\<lparr>dialled := dialled w @ [host]\<rparr>
           in case net w host of
                Inl e \<Rightarrow> (Inl e, w1)
              | Inr conn \<Rightarrow>
                  (case conn_Read 1024 conn of
                     ((bs, Some e), conn1) \<Rightarrow>
                       (Inl (Errorf (''Couldn't read the server's initital connection information. Error: ''
                                      @ error_text e)), w1)
                   | ((bs, None), conn1) \<Rightarrow>
                       let welcomeMsg = bs @ replicate (1024 - length bs) (CHR 0x00);
                           code = fst (Atoi (take 3 welcomeMsg))
                       in case checkResponseCode 2 (word_of_int code) of
                            Some e \<Rightarrow>
                              (Inl (Errorf (''Couldn't read the server's Welcome Message. Error: ''
                                             @ error_text e)), w1)
                          | None \<Rightarrow>
                              (Inr \<lparr>control = conn1, hostname = hd (Split host (CHR '':''))\<rparr>, w1)))"

section \<open>Transfers\<close>

definition apostrophe :: string where
  "apostrophe = [CHR 0x27]"

lemma conn_Read_progress:
  "conn_Read n ch = ((bs, e), ch') \<Longrightarrow> 0 < n \<Longrightarrow> bs \<noteq> [] \<or> e = None \<Longrightarrow>
     pending_size ch' < pending_size ch"
  by (auto simp: conn_Read_def pending_size_def split: if_splits list.splits read_event.splits)

text \<open>The copy loop of \<^verbatim>\<open>DownloadFile\<close> (lines 374 to 389).\<close>

function DownloadFile_loop ::
  "string \<Rightarrow> channel \<Rightarrow> channel \<Rightarrow> error option \<times> channel \<times> channel" where
  "DownloadFile_loop dest downloadConn destFile =
     (case conn_Read 1024 downloadConn of
        ((bs, readErr), conn') \<Rightarrow>
          (case (if bs \<noteq> [] then conn_Write bs destFile else (None, destFile)) of
             (Some err, destFile') \<Rightarrow>
               (Some (Errorf (''Coudn't write to file, '' @ apostrophe @ dest @ apostrophe
                               @ ''. Error: '' @ error_text err)),
                conn', destFile')
           | (None, destFile') \<Rightarrow>
               if readErr = Some EOF then (None, conn', destFile')
               else (case readErr of
                       Some e \<Rightarrow> (Some e, conn', destFile')
                     | None \<Rightarrow> DownloadFile_loop dest conn' destFile')))"
  by pat_completeness auto
termination
proof (relation "measure (\<lambda>(dest, downloadConn, destFile). pending_size downloadConn)", goal_cases)
  case 1
  show ?case by simp
next
  case 2
  then show ?case
    using conn_Read_progress [of 1024] by (auto dest: sym)
qed

declare DownloadFile_loop.simps [simp del]

text \<open>
  \<^verbatim>\<open>DownloadFile\<close> from the destination file on (lines 356 to 390), with the two
  deferred calls: whichever way it returns, the file (when it was opened) and the
  data connection are closed.
\<close>

definition DownloadFile_copy :: "string \<Rightarrow> channel \<Rightarrow> world \<Rightarrow> error option \<times> world" where
  "DownloadFile_copy dest downloadConn w =
     (case files w dest of
        Inl err \<Rightarrow>
          (Some (Errorf (''Cannot open destination file, '' @ apostrophe @ dest @ apostrophe
                          @ ''. '' @ error_text err)),
           w\<lparr>data_conn := Some (snd (conn_Close downloadConn)), local_file := None\<rparr>)
      | Inr destFile \<Rightarrow>
          (case DownloadFile_loop dest downloadConn destFile of
             (r, conn', destFile') \<Rightarrow>
               (r, w\<lparr>data_conn := Some (snd (conn_Close conn')),
                      local_file := Some (snd (conn_Close destFile'))\<rparr>)))"

text \<open>
  \<^verbatim>\<open>DownloadFile\<close> (lines 311 to 391). After \<^verbatim>\<open>net.Dial\<close> the call
  \<^verbatim>\<open>downloadConn.Close\<close> is deferred before the error is looked at: when the dial
  has failed, \<^verbatim>\<open>downloadConn\<close> is the nil interface and the method call on it is a
  run-time panic, so the function never reaches the return of its error.
\<close>

definition DownloadFile ::
  "connection \<Rightarrow> string \<Rightarrow> string \<Rightarrow> string \<Rightarrow> uint \<Rightarrow> world
     \<Rightarrow> error option outcome \<times> connection \<times> world" where
  "DownloadFile c src dest mode timeout w =
     (case Cmd c ''PASV'' [] of
        ((pasvCode, pasvLine, Some err), c1) \<Rightarrow> (Returns (Some err), c1, w)
      | ((pasvCode, pasvLine, None), c1) \<Rightarrow>
     (case checkResponseCode 2 pasvCode of
        Some pasvErr \<Rightarrow>
          (Returns (Some (Errorf (''Cannot set PASV. Error: '' @ error_text pasvErr))), c1, w)
      | None \<Rightarrow>
     (case extractDataPort pasvLine of
        Inl err \<Rightarrow> (Returns (Some err), c1, w)
      | Inr dataPort \<Rightarrow>
     (case Cmd c1 ''TYPE'' mode of
        ((typeCode, typeLine, Some err), c2) \<Rightarrow> (Returns (Some err), c2, w)
      | ((typeCode, typeLine, None), c2) \<Rightarrow>
     (case checkResponseCode 2 typeCode of
        Some typeErr \<Rightarrow>
          (Returns (Some (Errorf (''Cannot set TYPE. Error: '' @ apostrophe @ error_text typeErr
                                   @ apostrophe @ ''. Line: '' @ apostrophe @ typeLine
                                   @ apostrophe))), c2, w)
      | None \<Rightarrow>
     (case conn_Write (''RETR '' @ src @ CRLF) (control c2) of
        (Some err, ch) \<Rightarrow> (Returns (Some err), c2\<lparr>control := ch\<rparr>, w)
      | (None, ch) \<Rightarrow>
          let c3 = c2\<lparr>control := ch\<rparr>;
              remoteConnectString = hostname c3 @ '':'' @ dec (unat dataPort);
              w1 = w\<lparr>dialled := dialled w @ [remoteConnectString]\<rparr>
          in case net w remoteConnectString of
               Inl err \<Rightarrow> (Panics, c3, w1)
             | Inr downloadConn \<Rightarrow>
                 (case DownloadFile_copy dest downloadConn w1 of
                    (r, w2) \<Rightarrow> (Returns r, c3, w2))))))))"

text \<open>
  The copy loop of \<^verbatim>\<open>GetBuffer\<close> (lines 278 to 294). \<^verbatim>\<open>result.Write\<close> on a
  \<^verbatim>\<open>bytes.Buffer\<close> takes all the bytes and returns no error, so the inner loop
  runs once and leaves \<^verbatim>\<open>readErr\<close> nil.
\<close>

function GetBuffer_loop :: "channel \<Rightarrow> string \<Rightarrow> (error + string) \<times> channel" where
  "GetBuffer_loop downloadConn result =
     (case conn_Read 1024 downloadConn of
        ((bs, readErr0), conn') \<Rightarrow>
          if (if bs \<noteq> [] then None else readErr0) = Some EOF
          then (Inr (if bs \<noteq> [] then result @ bs else result), conn')
          else (case (if bs \<noteq> [] then None else readErr0) of
                  Some e \<Rightarrow> (Inl e, conn')
                | None \<Rightarrow> GetBuffer_loop conn' (if bs \<noteq> [] then result @ bs else result)))"
  by pat_completeness auto
termination
proof (relation "measure (\<lambda>(downloadConn, result). pending_size downloadConn)", goal_cases)
  case 1
  show ?case by simp
next
  case 2
  then show ?case
    using conn_Read_progress [of 1024] by (auto dest: sym split: if_splits)
qed

declare GetBuffer_loop.simps [simp del]

text \<open>
  \<^verbatim>\<open>GetBuffer\<close> (lines 223 to 296), with the same deferred call on the result of
  \<^verbatim>\<open>net.Dial\<close>.
\<close>

definition GetBuffer ::
  "connection \<Rightarrow> string \<Rightarrow> string \<Rightarrow> uint \<Rightarrow> world
     \<Rightarrow> (error + string) outcome \<times> connection \<times> world" where
  "GetBuffer c src mode timeout w =
     (case Cmd c ''PASV'' [] of
        ((pasvCode, pasvLine, Some err), c1) \<Rightarrow> (Returns (Inl err), c1, w)
      | ((pasvCode, pasvLine, None), c1) \<Rightarrow>
     (case checkResponseCode 2 pasvCode of
        Some pasvErr \<Rightarrow>
          (Returns (Inl (Errorf (''Cannot set PASV. Error: '' @ error_text pasvErr))), c1, w)
      | None \<Rightarrow>
     (case extractDataPort pasvLine of
        Inl err \<Rightarrow> (Returns (Inl err), c1, w)
      | Inr dataPort \<Rightarrow>
     (case Cmd c1 ''TYPE'' mode of
        ((typeCode, typeLine, Some err), c2) \<Rightarrow> (Returns (Inl err), c2, w)
      | ((typeCode, typeLine, None), c2) \<Rightarrow>
     (case checkResponseCode 2 typeCode of
        Some typeErr \<Rightarrow>
          (Returns (Inl (Errorf (''Cannot set TYPE. Error: '' @ apostrophe @ error_text typeErr
                                  @ apostrophe @ ''. Line: '' @ apostrophe @ typeLine
                                  @ apostrophe))), c2, w)
      | None \<Rightarrow>
     (case conn_Write (''RETR '' @ src @ CRLF) (control c2) of
        (Some err, ch) \<Rightarrow> (Returns (Inl err), c2\<lparr>control := ch\<rparr>, w)
      | (None, ch) \<Rightarrow>
          let c3 = c2\<lparr>control := ch\<rparr>;
              remoteConnectString = hostname c3 @ '':'' @ dec (unat dataPort);
              w1 = w\<lparr>dialled := dialled w @ [remoteConnectString]\<rparr>
          in case net w remoteConnectString of
               Inl err \<Rightarrow> (Panics, c3, w1)
             | Inr downloadConn \<Rightarrow>
                 (case GetBuffer_loop downloadConn [] of
                    (r, conn') \<Rightarrow>
                      (Returns r, c3, w1\<lparr>data_conn := Some (snd (conn_Close conn'))\<rparr>))))))))"

text \<open>The copy loop of \<^verbatim>\<open>UploadFile\<close> (lines 455 to 470).\<close>

function UploadFile_loop ::
  "string \<Rightarrow> channel \<Rightarrow> channel \<Rightarrow> error option \<times> channel \<times> channel" where
  "UploadFile_loop src sourceFile uploadConn =
     (case conn_Read 1024 sourceFile of
        ((bs, readErr), sourceFile') \<Rightarrow>
          (case (if bs \<noteq> [] then conn_Write bs uploadConn else (None, uploadConn)) of
             (Some writeErr, conn') \<Rightarrow>
               (Some (Errorf (''Couldn't write file to server, '' @ apostrophe @ src @ apostrophe
                               @ ''. Error: '' @ error_text writeErr)),
                sourceFile', conn')
           | (None, conn') \<Rightarrow>
               if readErr = Some EOF then (None, sourceFile', conn')
               else (case readErr of
                       Some e \<Rightarrow> (Some e, sourceFile', conn')
                     | None \<Rightarrow> UploadFile_loop src sourceFile' conn')))"
  by pat_completeness auto
termination
proof (relation "measure (\<lambda>(src, sourceFile, uploadConn). pending_size sourceFile)", goal_cases)
  case 1
  show ?case by simp
next
  case 2
  then show ?case
    using conn_Read_progress [of 1024] by (auto dest: sym)
qed

declare UploadFile_loop.simps [simp del]

text \<open>\<^verbatim>\<open>UploadFile\<close> from the source file on (lines 438 to 471), with its deferred calls.\<close>

definition UploadFile_copy :: "string \<Rightarrow> channel \<Rightarrow> world \<Rightarrow> error option \<times> world" where
  "UploadFile_copy src uploadConn w =
     (case files w src of
        Inl err \<Rightarrow>
          (Some (Errorf (''Cannot open src file, '' @ apostrophe @ src @ apostrophe
                          @ ''. '' @ error_text err)),
           w\<lparr>data_conn := Some (snd (conn_Close uploadConn)), local_file := None\<rparr>)
      | Inr sourceFile \<Rightarrow>
          (case UploadFile_loop src sourceFile uploadConn of
             (r, sourceFile', conn') \<Rightarrow>
               (r, w\<lparr>data_conn := Some (snd (conn_Close conn')),
                      local_file := Some (snd (conn_Close sourceFile'))\<rparr>)))"

text \<open>\<^verbatim>\<open>UploadFile\<close> (lines 395 to 472), with the same deferred call after the dial.\<close>

definition UploadFile ::
  "connection \<Rightarrow> string \<Rightarrow> string \<Rightarrow> string \<Rightarrow> uint \<Rightarrow> world
     \<Rightarrow> error option outcome \<times> connection \<times> world" where
  "UploadFile c src dest mode timeout w =
     (case Cmd c ''PASV'' [] of
        ((pasvCode, pasvLine, Some err), c1) \<Rightarrow> (Returns (Some err), c1, w)
      | ((pasvCode, pasvLine, None), c1) \<Rightarrow>
     (case checkResponseCode 2 pasvCode of
        Some pasvErr \<Rightarrow>
          (Returns (Some (Errorf (''Cannot set PASV. Error: '' @ error_text pasvErr))), c1, w)
      | None \<Rightarrow>
     (case extractDataPort pasvLine of
        Inl err \<Rightarrow> (Returns (Some err), c1, w)
      | Inr dataPort \<Rightarrow>
     (case Cmd c1 ''TYPE'' mode of
        ((typeCode, typeLine, Some err), c2) \<Rightarrow> (Returns (Some err), c2, w)
      | ((typeCode, typeLine, None), c2) \<Rightarrow>
     (case checkResponseCode 2 typeCode of
        Some typeErr \<Rightarrow>
          (Returns (Some (Errorf (''Cannot set TYPE. Error: '' @ apostrophe @ error_text typeErr
                                   @ apostrophe @ ''. Line: '' @ apostrophe @ typeLine
                                   @ apostrophe))), c2, w)
      | None \<Rightarrow>
     (case conn_Write (''STOR '' @ dest @ CRLF) (control c2) of
        (Some err, ch) \<Rightarrow> (Returns (Some err), c2\<lparr>control := ch\<rparr>, w)
      | (None, ch) \<Rightarrow>
          let c3 = c2\<lparr>control := ch\<rparr>;
              remoteConnectString = hostname c3 @ '':'' @ dec (unat dataPort);
              w1 = w\<lparr>dialled := dialled w @ [remoteConnectString]\<rparr>
          in case net w remoteConnectString of
               Inl err \<Rightarrow> (Panics, c3, w1)
             | Inr uploadConn \<Rightarrow>
                 (case UploadFile_copy src uploadConn w1 of
                    (r, w2) \<Rightarrow> (Returns r, c3, w2))))))))"

section \<open>Notions of the specification\<close>

text \<open>
  A digit group is one or more decimal digits. A text is of the form \<open>h1,h2,h3,h4,p1,p2\<close>
  when it is six digit groups with commas between them; \<open>pasv_form t p1 p2\<close> names
  the last two.
\<close>

definition digit_group :: "string \<Rightarrow> bool" where
  "digit_group g = (g \<noteq> [] \<and> list_all is_digit g)"

definition pasv_form :: "string \<Rightarrow> string \<Rightarrow> string \<Rightarrow> bool" where
  "pasv_form t p1 p2 =
     (\<exists>h1 h2 h3 h4.
        t = h1 @ '','' @ h2 @ '','' @ h3 @ '','' @ h4 @ '','' @ p1 @ '','' @ p2 \<and>
        digit_group h1 \<and> digit_group h2 \<and> digit_group h3 \<and> digit_group h4 \<and>
        digit_group p1 \<and> digit_group p2)"

text \<open>
  A body contains the form when some part of it is of the form; a text starts with the
  form when a prefix of it is. The occurrence which \<^verbatim>\<open>FindStringSubmatch\<close> reports
  is the leftmost one, with its last group as long as the digits go.
\<close>

definition starts_pasv :: "string \<Rightarrow> bool" where
  "starts_pasv s = (\<exists>t p1 p2 post. s = t @ post \<and> pasv_form t p1 p2)"

definition contains_pasv :: "string \<Rightarrow> bool" where
  "contains_pasv body = (\<exists>pre t post p1 p2. body = pre @ t @ post \<and> pasv_form t p1 p2)"

definition leftmost_pasv :: "string \<Rightarrow> string \<Rightarrow> string \<Rightarrow> bool" where
  "leftmost_pasv body p1 p2 =
     (\<exists>pre t post. body = pre @ t @ post \<and> pasv_form t p1 p2 \<and>
        (post = [] \<or> \<not> is_digit (hd post)) \<and>
        (\<forall>k<length pre. \<not> starts_pasv (drop k body)))"

text \<open>
  A line ends with its only line feed. A write succeeds on an open connection whose next
  scripted write outcome, if any, is success.
\<close>

definition is_line :: "string \<Rightarrow> bool" where
  "is_line ln = (ln \<noteq> [] \<and> last ln = LF \<and> LF \<notin> set (butlast ln))"

definition write_ok :: "channel \<Rightarrow> bool" where
  "write_ok ch = (\<not> closed ch \<and> (case wfaults ch of [] \<Rightarrow> True | f # _ \<Rightarrow> f = None))"

section \<open>Properties of the pure functions\<close>

subsection \<open>Hosts and ports\<close>

lemma last_index_from_cases:
  "(c \<notin> set xs \<and> last_index_from i found xs c = found) \<or>
   (\<exists>k<length xs. xs ! k = c \<and> (\<forall>j<length xs. xs ! j = c \<longrightarrow> j \<le> k)
       \<and> last_index_from i found xs c = i + int k)"
proof (induction xs arbitrary: i found)
  case Nil
  then show ?case by simp
next
  case (Cons x xs)
  let ?f = "if x = c then i else found"
  from Cons.IH [of "i + 1" ?f]
  show ?case
  proof
    assume a: "c \<notin> set xs \<and> last_index_from (i + 1) ?f xs c = ?f"
    show ?thesis
    proof (cases "x = c")
      case True
      have "\<forall>j<length (x # xs). (x # xs) ! j = c \<longrightarrow> j \<le> 0"
        using a by (auto simp: nth_Cons split: nat.splits)
      with True a have "0 < length (x # xs) \<and> (x # xs) ! 0 = c
          \<and> (\<forall>j<length (x # xs). (x # xs) ! j = c \<longrightarrow> j \<le> 0)
          \<and> last_index_from i found (x # xs) c = i + int 0"
        by simp
      then show ?thesis by blast
    next
      case False
      with a show ?thesis by simp
    qed
  next
    assume "\<exists>k<length xs. xs ! k = c \<and> (\<forall>j<length xs. xs ! j = c \<longrightarrow> j \<le> k)
       \<and> last_index_from (i + 1) ?f xs c = i + 1 + int k"
    then obtain k where k: "k < length xs" "xs ! k = c"
      "\<forall>j<length xs. xs ! j = c \<longrightarrow> j \<le> k"
      "last_index_from (i + 1) ?f xs c = i + 1 + int k"
      by blast
    have "\<forall>j<length (x # xs). (x # xs) ! j = c \<longrightarrow> j \<le> Suc k"
      using k(3) by (auto simp: nth_Cons split: nat.splits)
    with k have "Suc k < length (x # xs) \<and> (x # xs) ! Suc k = c
        \<and> (\<forall>j<length (x # xs). (x # xs) ! j = c \<longrightarrow> j \<le> Suc k)
        \<and> last_index_from i found (x # xs) c = i + int (Suc k)"
      by simp
    then show ?thesis by blast
  qed
qed

lemma LastIndex_cases:
  "(c \<notin> set s \<and> LastIndex s c = - 1) \<or>
   (\<exists>k<length s. s ! k = c \<and> (\<forall>j<length s. s ! j = c \<longrightarrow> j \<le> k) \<and> LastIndex s c = int k)"
  using last_index_from_cases [of c s 0 "- 1"] by (simp add: LastIndex_def)

lemma hasPort_iff:
  "hasPort s \<longleftrightarrow>
     (\<exists>i<length s. s ! i = CHR '':'' \<and> (\<forall>j<length s. s ! j = CHR '']'' \<longrightarrow> j < i))"
  (is "_ \<longleftrightarrow> ?R")
proof -
  consider (none) "CHR '':'' \<notin> set s" "LastIndex s (CHR '':'') = - 1"
    | (some) k where "k < length s" "s ! k = CHR '':''"
        "\<forall>j<length s. s ! j = CHR '':'' \<longrightarrow> j \<le> k" "LastIndex s (CHR '':'') = int k"
    using LastIndex_cases [of "CHR '':''" s] by blast
  then show ?thesis
  proof cases
    case none
    have "- 1 \<le> LastIndex s (CHR '']'')"
      using LastIndex_cases [of "CHR '']''" s] by auto
    then have "\<not> hasPort s" using none by (simp add: hasPort_def)
    moreover have "\<not> ?R" using none(1) by (auto simp: in_set_conv_nth)
    ultimately show ?thesis by blast
  next
    case some
    consider (nob) "CHR '']'' \<notin> set s" "LastIndex s (CHR '']'') = - 1"
      | (br) m where "m < length s" "s ! m = CHR '']''"
          "\<forall>j<length s. s ! j = CHR '']'' \<longrightarrow> j \<le> m" "LastIndex s (CHR '']'') = int m"
      using LastIndex_cases [of "CHR '']''" s] by blast
    then show ?thesis
    proof cases
      case nob
      have "hasPort s" using some nob by (simp add: hasPort_def)
      moreover have "?R" using some(1,2) nob(1) by (auto simp: in_set_conv_nth)
      ultimately show ?thesis by blast
    next
      case br
      show ?thesis
      proof
        assume "hasPort s"
        then have "m < k" using some br by (simp add: hasPort_def)
        then have "\<forall>j<length s. s ! j = CHR '']'' \<longrightarrow> j < k"
          using br(3) by fastforce
        with some(1,2) show ?R by blast
      next
        assume ?R
        then obtain i where i: "i < length s" "s ! i = CHR '':''"
          "\<forall>j<length s. s ! j = CHR '']'' \<longrightarrow> j < i" by blast
        then have "m < i" using br by blast
        moreover have "i \<le> k" using i some by blast
        ultimately show "hasPort s" using some br by (simp add: hasPort_def)
      qed
    qed
  qed
qed

text \<open>
  Claim C8. For every host string that is empty or lacks a colon-delimited port (a colon
  that stands after every closing bracket), \<^verbatim>\<open>Dial\<close> returns the validation error
  and leaves the world as it was: nothing is dialled and nothing is read.
\<close>

theorem Dial_rejects_host_without_port:
  assumes "host = [] \<or> \<not> (\<exists>i<length host. host ! i = CHR '':''
              \<and> (\<forall>j<length host. host ! j = CHR '']'' \<longrightarrow> j < i))"
  shows "Dial host w =
           (Inl (Errorf (if host = [] then ''FTP Connection Error: Host can not be blank!''
                         else ''FTP Connection Error: Host must have a port! e.g. host:21'')), w)"
  using assms by (auto simp: Dial_def hasPort_iff)

theorem Dial_rejects_host_without_port_witness:
  "\<not> hasPort ''ftp.example.org'' \<and>
   Dial ''ftp.example.org'' \<lparr>net = (\<lambda>a. Inl EOF), files = (\<lambda>a. Inl EOF), dialled = [],
        data_conn = None, local_file = None\<rparr> =
     (Inl (Errorf ''FTP Connection Error: Host must have a port! e.g. host:21''),
      \<lparr>net = (\<lambda>a. Inl EOF), files = (\<lambda>a. Inl EOF), dialled = [],
        data_conn = None, local_file = None\<rparr>)
   \<and> Dial '''' \<lparr>net = (\<lambda>a. Inl EOF), files = (\<lambda>a. Inl EOF), dialled = [],
        data_conn = None, local_file = None\<rparr> =
     (Inl (Errorf ''FTP Connection Error: Host can not be blank!''),
      \<lparr>net = (\<lambda>a. Inl EOF), files = (\<lambda>a. Inl EOF), dialled = [],
        data_conn = None, local_file = None\<rparr>)"
proof -
  have h: "''ftp.example.org'' = [] \<or> \<not> (\<exists>i<length ''ftp.example.org''. ''ftp.example.org'' ! i = CHR '':''
              \<and> (\<forall>j<length ''ftp.example.org''. ''ftp.example.org'' ! j = CHR '']'' \<longrightarrow> j < i))"
  proof -
    have "\<not> hasPort ''ftp.example.org''"
      by (simp add: hasPort_def LastIndex_def)
    then show ?thesis
      unfolding hasPort_iff by (rule disjI2)
  qed
  have h2: "'''' = [] \<or> \<not> (\<exists>i<length ''''. '''' ! i = CHR '':''
              \<and> (\<forall>j<length ''''. '''' ! j = CHR '']'' \<longrightarrow> j < i))"
    by simp
  have "\<not> hasPort ''ftp.example.org''"
    by (simp add: hasPort_def LastIndex_def)
  then show ?thesis
    using Dial_rejects_host_without_port [OF h] Dial_rejects_host_without_port [OF h2] by simp
qed

subsection \<open>Classification of response codes\<close>

text \<open>
  Claim C2. For an expected value of one, two or three digits the actual code is cut to
  the same number of digits (divided by 100, by 10, or taken as it is) and the
  classification succeeds exactly when the result equals the expected value; a failure
  is an error whose text carries both values. With 2, 23 and 230 expected, the code 230
  passes and the code 500 fails.
\<close>

theorem checkResponseCode_truncates:
  "(1 \<le> e \<and> e \<le> 9 \<longrightarrow> (checkResponseCode e a = None \<longleftrightarrow> a div 100 = e)) \<and>
   (10 \<le> e \<and> e \<le> 99 \<longrightarrow> (checkResponseCode e a = None \<longleftrightarrow> a div 10 = e)) \<and>
   (100 \<le> e \<and> e \<le> 999 \<longrightarrow> (checkResponseCode e a = None \<longleftrightarrow> a = e)) \<and>
   (checkResponseCode e a = None \<or>
    checkResponseCode e a = Some (Errorf (''Bad response from server. Expected: '' @ dec (unat e)
                                          @ '', Got: '' @ dec (unat a)))) \<and>
   checkResponseCode 2 230 = None \<and> checkResponseCode 23 230 = None \<and>
   checkResponseCode 230 230 = None \<and>
   checkResponseCode 2 500 = Some (Errorf ''Bad response from server. Expected: 2, Got: 500'') \<and>
   checkResponseCode 23 500 = Some (Errorf ''Bad response from server. Expected: 23, Got: 500'') \<and>
   checkResponseCode 230 500 = Some (Errorf ''Bad response from server. Expected: 230, Got: 500'')"
proof -
  have w1: "e \<le> 9 \<longleftrightarrow> e < 10" by (simp add: word_le_nat_alt word_less_nat_alt) arith
  have w2: "e \<le> 99 \<longleftrightarrow> e < 100" by (simp add: word_le_nat_alt word_less_nat_alt) arith
  have w3: "e \<le> 999 \<longleftrightarrow> e < 1000" by (simp add: word_le_nat_alt word_less_nat_alt) arith
  have o1: "e < 10 \<Longrightarrow> \<not> 10 \<le> e" "e < 10 \<Longrightarrow> \<not> 100 \<le> e"
    by (simp_all add: word_le_nat_alt word_less_nat_alt)
  have o2: "10 \<le> e \<Longrightarrow> \<not> e < 10" "e < 100 \<Longrightarrow> \<not> 100 \<le> e"
    by (simp_all add: word_le_nat_alt word_less_nat_alt)
  have o3: "100 \<le> e \<Longrightarrow> \<not> e < 10" "100 \<le> e \<Longrightarrow> \<not> e < 100"
    by (simp_all add: word_le_nat_alt word_less_nat_alt)
  have a: "1 \<le> e \<and> e \<le> 9 \<longrightarrow> (checkResponseCode e a = None \<longleftrightarrow> a div 100 = e)"
    using o1 by (auto simp: checkResponseCode_def w1)
  have b: "10 \<le> e \<and> e \<le> 99 \<longrightarrow> (checkResponseCode e a = None \<longleftrightarrow> a div 10 = e)"
    using o2 by (auto simp: checkResponseCode_def w2)
  have c: "100 \<le> e \<and> e \<le> 999 \<longrightarrow> (checkResponseCode e a = None \<longleftrightarrow> a = e)"
    using o3 by (auto simp: checkResponseCode_def w3)
  have d: "checkResponseCode e a = None \<or>
    checkResponseCode e a = Some (Errorf (''Bad response from server. Expected: '' @ dec (unat e)
                                          @ '', Got: '' @ dec (unat a)))"
    by (simp add: checkResponseCode_def)
  have ex: "checkResponseCode 2 230 = None" "checkResponseCode 23 230 = None"
   "checkResponseCode 230 230 = None"
   "checkResponseCode 2 500 = Some (Errorf ''Bad response from server. Expected: 2, Got: 500'')"
   "checkResponseCode 23 500 = Some (Errorf ''Bad response from server. Expected: 23, Got: 500'')"
   "checkResponseCode 230 500 = Some (Errorf ''Bad response from server. Expected: 230, Got: 500'')"
    by (simp_all add: checkResponseCode_def dec.simps)
  from a b c d ex show ?thesis by blast
qed

theorem checkResponseCode_truncates_witness:
  "(1::uint) \<le> 2 \<and> (2::uint) \<le> 9 \<and> checkResponseCode 2 230 = None \<and> (230::uint) div 100 = 2 \<and>
   (10::uint) \<le> 23 \<and> (23::uint) \<le> 99 \<and> checkResponseCode 23 500 \<noteq> None \<and> (500::uint) div 10 \<noteq> 23 \<and>
   (100::uint) \<le> 230 \<and> (230::uint) \<le> 999 \<and> checkResponseCode 230 231 \<noteq> None"
  using checkResponseCode_truncates [of 2 230] checkResponseCode_truncates [of 23 500]
    checkResponseCode_truncates [of 230 231]
  by simp

subsection \<open>Blank credentials\<close>

text \<open>
  Claim C9. \<^verbatim>\<open>Login\<close> with a blank user, or with a blank password, fails with the
  validation error and returns the connection as it was: no command is written to the
  control channel and nothing is read from it.
\<close>

theorem Login_blank:
  "Login c [] password = (Some (Errorf ''FTP Connection Error: User can not be blank!''), c) \<and>
   Login c user [] =
     (Some (Errorf (if user = [] then ''FTP Connection Error: User can not be blank!''
                    else ''FTP Connection Error: Password can not be blank!'')), c)"
  by (simp add: Login_def)

section \<open>Decoding the data port\<close>

lemma comma_not_digit [simp]: "\<not> is_digit (CHR '','')"
  by (simp add: is_digit_def)

lemma not_digit_start_comma [simp]: "CHR '','' # r = [] \<or> \<not> is_digit (hd (CHR '','' # r))"
  by simp

lemma digits1_append:
  assumes "digit_group g" and "rest = [] \<or> \<not> is_digit (hd rest)"
  shows "digits1 (g @ rest) = Some (g, rest)"
proof -
  have all: "\<forall>x\<in>set g. is_digit x"
    using assms(1) by (simp add: digit_group_def list_all_iff)
  have r: "takeWhile is_digit rest = []" "dropWhile is_digit rest = rest"
    using assms(2) by (cases rest; auto)+
  have "takeWhile is_digit (g @ rest) = g" "dropWhile is_digit (g @ rest) = rest"
    using all r by (simp_all add: takeWhile_append2 dropWhile_append2)
  moreover have "g \<noteq> []" using assms(1) by (simp add: digit_group_def)
  ultimately show ?thesis by (simp add: digits1_def)
qed

lemma digits1_Some:
  assumes "digits1 s = Some (g, r)"
  shows "s = g @ r \<and> digit_group g \<and> (r = [] \<or> \<not> is_digit (hd r))"
proof -
  from assms have g: "g = takeWhile is_digit s" and r: "r = dropWhile is_digit s" and ne: "g \<noteq> []"
    by (auto simp: digits1_def split: if_splits)
  have "s = g @ r" by (simp add: g r)
  moreover have "list_all is_digit g"
    unfolding g list_all_iff by (auto dest: set_takeWhileD)
  moreover have "r = [] \<or> \<not> is_digit (hd r)"
    unfolding r using hd_dropWhile [of is_digit s] by blast
  ultimately show ?thesis using ne by (simp add: digit_group_def)
qed

lemma comma_Some: "comma s = Some r \<longleftrightarrow> s = CHR '','' # r"
  by (cases s) auto

lemma port_match_here_form:
  assumes "pasv_form t p1 p2" and "post = [] \<or> \<not> is_digit (hd post)"
  shows "port_match_here (t @ post) = Some [t, p1 @ '','' @ p2]"
proof -
  from assms(1) obtain h1 h2 h3 h4 where
    t: "t = h1 @ '','' @ h2 @ '','' @ h3 @ '','' @ h4 @ '','' @ p1 @ '','' @ p2" and
    g: "digit_group h1" "digit_group h2" "digit_group h3" "digit_group h4"
       "digit_group p1" "digit_group p2"
    unfolding pasv_form_def by blast
  have d: "\<And>g r. digit_group g \<Longrightarrow> digits1 (g @ CHR '','' # r) = Some (g, CHR '','' # r)"
    by (rule digits1_append) simp_all
  have e: "digits1 (p2 @ post) = Some (p2, post)"
    using g(6) assms(2) by (rule digits1_append)
  show ?thesis
    unfolding t port_match_here_def by (simp add: d g e)
qed

lemma port_match_here_Some:
  assumes "port_match_here s = Some m"
  shows "\<exists>t p1 p2 post. s = t @ post \<and> pasv_form t p1 p2 \<and> (post = [] \<or> \<not> is_digit (hd post))
           \<and> m = [t, p1 @ '','' @ p2]"
proof -
  from assms obtain h1 r1 r1' h2 r2 r2' h3 r3 r3' h4 r4 r4' p1 r5 r5' p2 r6 where
    s: "digits1 s = Some (h1, r1)" "comma r1 = Some r1'"
       "digits1 r1' = Some (h2, r2)" "comma r2 = Some r2'"
       "digits1 r2' = Some (h3, r3)" "comma r3 = Some r3'"
       "digits1 r3' = Some (h4, r4)" "comma r4 = Some r4'"
       "digits1 r4' = Some (p1, r5)" "comma r5 = Some r5'"
       "digits1 r5' = Some (p2, r6)" and
    m: "m = [h1 @ '','' @ h2 @ '','' @ h3 @ '','' @ h4 @ '','' @ p1 @ '','' @ p2, p1 @ '','' @ p2]"
    unfolding port_match_here_def
    by (auto simp: bind_eq_Some_conv)
  note d = s(1,3,5,7,9,11) [THEN digits1_Some]
  note c = s(2,4,6,8,10) [unfolded comma_Some]
  have "s = (h1 @ '','' @ h2 @ '','' @ h3 @ '','' @ h4 @ '','' @ p1 @ '','' @ p2) @ r6"
    using d c by simp
  moreover have "pasv_form (h1 @ '','' @ h2 @ '','' @ h3 @ '','' @ h4 @ '','' @ p1 @ '','' @ p2) p1 p2"
    unfolding pasv_form_def using d by blast
  ultimately show ?thesis using m d(6) by blast
qed

lemma pasv_form_extend:
  assumes "pasv_form t p1 p2" and "list_all is_digit ds"
  shows "pasv_form (t @ ds) p1 (p2 @ ds)"
  using assms unfolding pasv_form_def digit_group_def by auto

lemma starts_pasv_iff: "starts_pasv s \<longleftrightarrow> port_match_here s \<noteq> None"
proof
  assume "starts_pasv s"
  then obtain t p1 p2 post where s: "s = t @ post" and f: "pasv_form t p1 p2"
    unfolding starts_pasv_def by blast
  let ?ds = "takeWhile is_digit post"
  let ?r = "dropWhile is_digit post"
  have "list_all is_digit ?ds"
    unfolding list_all_iff by (auto dest: set_takeWhileD)
  then have "pasv_form (t @ ?ds) p1 (p2 @ ?ds)"
    using f by (rule pasv_form_extend [rotated])
  moreover have "?r = [] \<or> \<not> is_digit (hd ?r)"
    using hd_dropWhile [of is_digit post] by blast
  ultimately have "port_match_here ((t @ ?ds) @ ?r) = Some [t @ ?ds, p1 @ '','' @ p2 @ ?ds]"
    by (rule port_match_here_form)
  then show "port_match_here s \<noteq> None"
    by (simp add: s)
next
  assume "port_match_here s \<noteq> None"
  then obtain m where "port_match_here s = Some m" by blast
  from port_match_here_Some [OF this] show "starts_pasv s"
    unfolding starts_pasv_def by blast
qed

lemma port_match_here_Nil [simp]: "port_match_here [] = None"
  by (simp add: port_match_here_def digits1_def)

lemma FindStringSubmatch_port_leftmost:
  assumes "\<forall>k<length pre. port_match_here (drop k (pre @ s)) = None"
    and "port_match_here s = Some m"
  shows "FindStringSubmatch_port (pre @ s) = m"
  using assms
proof (induction pre)
  case Nil
  then show ?case by (cases s) auto
next
  case (Cons x pre)
  from Cons.prems(1) have "port_match_here (drop 0 ((x # pre) @ s)) = None"
    by blast
  then have here: "port_match_here (x # pre @ s) = None" by simp
  have "\<forall>k<length pre. port_match_here (drop k (pre @ s)) = None"
  proof (intro allI impI)
    fix k assume "k < length pre"
    then have "Suc k < length (x # pre)" by simp
    with Cons.prems(1) have "port_match_here (drop (Suc k) ((x # pre) @ s)) = None" by blast
    then show "port_match_here (drop k (pre @ s)) = None" by simp
  qed
  from Cons.IH [OF this Cons.prems(2)] here show ?case by simp
qed

lemma FindStringSubmatch_port_Some:
  "FindStringSubmatch_port s \<noteq> [] \<Longrightarrow>
     \<exists>pre r. s = pre @ r \<and> port_match_here r = Some (FindStringSubmatch_port s)
       \<and> (\<forall>k<length pre. port_match_here (drop k s) = None)"
proof (induction s)
  case Nil
  then show ?case by simp
next
  case (Cons x xs)
  show ?case
  proof (cases "port_match_here (x # xs)")
    case (Some m)
    then have "x # xs = [] @ (x # xs) \<and> port_match_here (x # xs) = Some (FindStringSubmatch_port (x # xs))
       \<and> (\<forall>k<length ([]::string). port_match_here (drop k (x # xs)) = None)"
      by simp
    then show ?thesis by blast
  next
    case None
    with Cons.prems have "FindStringSubmatch_port xs \<noteq> []" by simp
    from Cons.IH [OF this] obtain pre r where
      p: "xs = pre @ r" "port_match_here r = Some (FindStringSubmatch_port xs)"
         "\<forall>k<length pre. port_match_here (drop k xs) = None"
      by blast
    have "\<forall>k<length (x # pre). port_match_here (drop k (x # xs)) = None"
    proof (intro allI impI)
      fix k assume k: "k < length (x # pre)"
      show "port_match_here (drop k (x # xs)) = None"
      proof (cases k)
        case 0
        then show ?thesis using None by simp
      next
        case (Suc j)
        with k p(3) show ?thesis by simp
      qed
    qed
    with p None have "x # xs = (x # pre) @ r \<and> port_match_here r = Some (FindStringSubmatch_port (x # xs))
       \<and> (\<forall>k<length (x # pre). port_match_here (drop k (x # xs)) = None)"
      by simp
    then show ?thesis by blast
  qed
qed

lemma FindStringSubmatch_port_finds:
  assumes "port_match_here s \<noteq> None"
  shows "FindStringSubmatch_port (pre @ s) \<noteq> []"
proof (induction pre)
  case Nil
  from assms obtain m where m: "port_match_here s = Some m" by blast
  from port_match_here_Some [OF m] have "m \<noteq> []" by blast
  moreover from m have "s \<noteq> []" by auto
  ultimately show ?case using m by (cases s) auto
next
  case (Cons x pre)
  show ?case
  proof (cases "port_match_here (x # pre @ s)")
    case None
    with Cons.IH show ?thesis by simp
  next
    case (Some m)
    from port_match_here_Some [OF Some] have "m \<noteq> []" by blast
    with Some show ?thesis by simp
  qed
qed

lemma Split_no_sep: "c \<notin> set s \<Longrightarrow> Split s c = [s]"
  by (induction s) auto

lemma Split_at_sep: "c \<notin> set a \<Longrightarrow> Split (a @ c # b) c = a # Split b c"
  by (induction a) auto

lemma digit_group_no_comma: "digit_group g \<Longrightarrow> CHR '','' \<notin> set g"
  by (auto simp: digit_group_def list_all_iff)

lemma Split_group:
  "digit_group p1 \<Longrightarrow> digit_group p2 \<Longrightarrow> Split (p1 @ '','' @ p2) (CHR '','') = [p1, p2]"
  by (simp add: Split_at_sep Split_no_sep digit_group_no_comma)

lemma port_match_here_length:
  "port_match_here s = Some m \<Longrightarrow> length m = 2"
  by (drule port_match_here_Some) auto

lemma Atoi_digit_group:
  assumes "digit_group g"
  shows "Atoi g = (if dec_val g < 2 ^ 63 then (int (dec_val g), None)
                   else (2 ^ 63 - 1, Some (ErrRange g)))"
proof -
  from assms obtain x xs where g: "g = x # xs" and d: "is_digit x" "list_all is_digit xs"
    by (cases g) (auto simp: digit_group_def)
  have "x \<noteq> CHR ''-''" "x \<noteq> CHR ''+''"
    using d(1) by (auto simp: is_digit_def)
  then show ?thesis
    using d by (simp add: Atoi_def g Let_def)
qed

lemma extractDataPort_of_match:
  assumes "FindStringSubmatch_port body = [t, p1 @ '','' @ p2]"
    and "digit_group p1" and "digit_group p2"
  shows "extractDataPort body = Inr (word_of_int (fst (Atoi p1) * 256 + fst (Atoi p2)))"
  using assms
  by (simp add: extractDataPort_def Split_at_sep Split_no_sep digit_group_no_comma Let_def)

lemma pasv_form_groups: "pasv_form t p1 p2 \<Longrightarrow> digit_group p1 \<and> digit_group p2"
  unfolding pasv_form_def by blast

lemma extractDataPort_leftmost:
  assumes "leftmost_pasv body p1 p2"
  shows "extractDataPort body = Inr (word_of_int (fst (Atoi p1) * 256 + fst (Atoi p2)))"
proof -
  from assms obtain pre t post where
    b: "body = pre @ t @ post" and f: "pasv_form t p1 p2" and
    m: "post = [] \<or> \<not> is_digit (hd post)" and
    l: "\<forall>k<length pre. \<not> starts_pasv (drop k body)"
    unfolding leftmost_pasv_def by blast
  have "port_match_here (t @ post) = Some [t, p1 @ '','' @ p2]"
    using f m by (rule port_match_here_form)
  moreover have "\<forall>k<length pre. port_match_here (drop k (pre @ t @ post)) = None"
    using l by (simp add: starts_pasv_iff b)
  ultimately have "FindStringSubmatch_port body = [t, p1 @ '','' @ p2]"
    unfolding b by (rule FindStringSubmatch_port_leftmost [rotated])
  then show ?thesis
    using pasv_form_groups [OF f] by (simp add: extractDataPort_of_match)
qed

lemma contains_pasv_iff: "contains_pasv body \<longleftrightarrow> FindStringSubmatch_port body \<noteq> []"
proof
  assume "contains_pasv body"
  then obtain pre t post p1 p2 where b: "body = pre @ t @ post" and f: "pasv_form t p1 p2"
    unfolding contains_pasv_def by blast
  then have "starts_pasv (t @ post)"
    unfolding starts_pasv_def by blast
  then have "port_match_here (t @ post) \<noteq> None"
    by (simp add: starts_pasv_iff)
  then show "FindStringSubmatch_port body \<noteq> []"
    unfolding b by (rule FindStringSubmatch_port_finds)
next
  assume "FindStringSubmatch_port body \<noteq> []"
  from FindStringSubmatch_port_Some [OF this] obtain pre r where
    b: "body = pre @ r" and m: "port_match_here r = Some (FindStringSubmatch_port body)"
    by blast
  from port_match_here_Some [OF m] obtain t p1 p2 post where
    "r = t @ post" "pasv_form t p1 p2" by blast
  with b show "contains_pasv body"
    unfolding contains_pasv_def by blast
qed

lemma contains_pasv_leftmost:
  assumes "contains_pasv body"
  shows "\<exists>p1 p2. leftmost_pasv body p1 p2"
proof -
  from assms have "FindStringSubmatch_port body \<noteq> []"
    by (simp add: contains_pasv_iff)
  from FindStringSubmatch_port_Some [OF this] obtain pre r where
    b: "body = pre @ r" and m: "port_match_here r = Some (FindStringSubmatch_port body)" and
    l: "\<forall>k<length pre. port_match_here (drop k body) = None"
    by blast
  from port_match_here_Some [OF m] obtain t p1 p2 post where
    r: "r = t @ post" "pasv_form t p1 p2" "post = [] \<or> \<not> is_digit (hd post)" by blast
  have "\<forall>k<length pre. \<not> starts_pasv (drop k body)"
    using l by (simp add: starts_pasv_iff)
  with b r have "leftmost_pasv body p1 p2"
    unfolding leftmost_pasv_def by blast
  then show ?thesis by blast
qed

lemma port_sum_fits:
  assumes "a < 2 ^ 63" "b < 2 ^ 63" "a * 256 + b < 2 ^ 64"
  shows "unat (word_of_int (int a * 256 + int b) :: uint) = a * 256 + b"
proof -
  have "int a * 256 + int b = int (a * 256 + b)"
    by simp
  then have "(word_of_int (int a * 256 + int b) :: uint) = word_of_nat (a * 256 + b)"
    by (simp only: of_int_of_nat_eq)
  moreover have "unat (word_of_nat (a * 256 + b) :: uint) = a * 256 + b"
    using assms(3) by (simp only: unat_of_nat) simp
  ultimately show ?thesis by (simp only:)
qed

lemma leftmost_pasv_of_match:
  assumes "FindStringSubmatch_port body = [t, p1 @ '','' @ p2]"
    and "digit_group p1" and "digit_group p2"
  shows "leftmost_pasv body p1 p2"
proof -
  from assms(1) have "FindStringSubmatch_port body \<noteq> []" by simp
  from FindStringSubmatch_port_Some [OF this] obtain pre r where
    b: "body = pre @ r" and m: "port_match_here r = Some [t, p1 @ '','' @ p2]" and
    l: "\<forall>k<length pre. port_match_here (drop k body) = None"
    using assms(1) by auto
  from port_match_here_Some [OF m] obtain t' q1 q2 post where
    r: "r = t' @ post" "pasv_form t' q1 q2" "post = [] \<or> \<not> is_digit (hd post)" and
    e: "[t, p1 @ '','' @ p2] = [t', q1 @ '','' @ q2]"
    by blast
  have "Split (p1 @ '','' @ p2) (CHR '','') = Split (q1 @ '','' @ q2) (CHR '','')"
    using e by simp
  then have "p1 = q1 \<and> p2 = q2"
    using assms(2,3) pasv_form_groups [OF r(2)]
    by (simp add: Split_at_sep Split_no_sep digit_group_no_comma)
  moreover have "\<forall>k<length pre. \<not> starts_pasv (drop k body)"
    using l by (simp add: starts_pasv_iff)
  ultimately show ?thesis
    unfolding leftmost_pasv_def using b r by blast
qed

lemmas port_eval =
  extractDataPort_def port_match_here_def digits1_def is_digit_def Atoi_def dec_val_def
  digit_val_def digit_group_def

text \<open>
  Claim C3, amended. When the leftmost occurrence of the form \<open>h1,h2,h3,h4,p1,p2\<close> in
  the body (its last group taken as long as the digits go) has port groups that fit an
  \<^verbatim>\<open>int\<close> and a sum \<open>p1 * 256 + p2\<close> that fits a \<^verbatim>\<open>uint\<close>, then
  \<^verbatim>\<open>extractDataPort\<close> returns that sum; for the body of the test it returns 52718;
  and for a body that contains no text of the form it fails with the error that quotes
  the body.
\<close>

theorem extractDataPort_leftmost_port:
  "(leftmost_pasv body p1 p2 \<and> dec_val p1 < 2 ^ 63 \<and> dec_val p2 < 2 ^ 63 \<and>
      dec_val p1 * 256 + dec_val p2 < 2 ^ 64
      \<longrightarrow> (\<exists>port. extractDataPort body = Inr port \<and> unat port = dec_val p1 * 256 + dec_val p2)) \<and>
   extractDataPort ''227 Entering Passive Mode (127,0,0,1,205,238).'' = Inr 52718 \<and>
   (\<not> contains_pasv body
      \<longrightarrow> extractDataPort body = Inl (Errorf (''Cannot find data port in server output: '' @ body)))"
proof (intro conjI impI)
  assume a: "leftmost_pasv body p1 p2 \<and> dec_val p1 < 2 ^ 63 \<and> dec_val p2 < 2 ^ 63 \<and>
      dec_val p1 * 256 + dec_val p2 < 2 ^ 64"
  then obtain t where "pasv_form t p1 p2"
    unfolding leftmost_pasv_def by blast
  then have g: "digit_group p1" "digit_group p2"
    by (simp_all add: pasv_form_groups)
  have "extractDataPort body = Inr (word_of_int (int (dec_val p1) * 256 + int (dec_val p2)))"
    using a extractDataPort_leftmost [of body p1 p2] by (simp add: Atoi_digit_group g)
  moreover have "unat (word_of_int (int (dec_val p1) * 256 + int (dec_val p2)) :: uint)
      = dec_val p1 * 256 + dec_val p2"
    using a by (intro port_sum_fits) simp_all
  ultimately show "\<exists>port. extractDataPort body = Inr port \<and> unat port = dec_val p1 * 256 + dec_val p2"
    by blast
next
  show "extractDataPort ''227 Entering Passive Mode (127,0,0,1,205,238).'' = Inr 52718"
    by (simp add: port_eval)
next
  assume "\<not> contains_pasv body"
  then show "extractDataPort body = Inl (Errorf (''Cannot find data port in server output: '' @ body))"
    by (simp add: contains_pasv_iff extractDataPort_def)
qed

theorem extractDataPort_leftmost_port_witness:
  "leftmost_pasv ''227 Entering Passive Mode (127,0,0,1,205,238).'' ''205'' ''238'' \<and>
   (\<exists>port. extractDataPort ''227 Entering Passive Mode (127,0,0,1,205,238).'' = Inr port
      \<and> unat port = 52718) \<and>
   \<not> contains_pasv ''500 Unknown command.'' \<and>
   extractDataPort ''500 Unknown command.''
     = Inl (Errorf ''Cannot find data port in server output: 500 Unknown command.'')"
proof -
  have l: "leftmost_pasv ''227 Entering Passive Mode (127,0,0,1,205,238).'' ''205'' ''238''"
    by (rule leftmost_pasv_of_match [where t = "''127,0,0,1,205,238''"])
       (simp_all add: port_eval)
  have n: "\<not> contains_pasv ''500 Unknown command.''"
    by (simp add: contains_pasv_iff port_eval)
  have v: "dec_val ''205'' = 205" "dec_val ''238'' = 238"
    by (simp_all add: port_eval)
  show ?thesis
    using l n extractDataPort_leftmost_port [of "''227 Entering Passive Mode (127,0,0,1,205,238).''" "''205''" "''238''"]
      extractDataPort_leftmost_port [of "''500 Unknown command.''"]
    by (simp add: v)
qed

text \<open>
  The claim as stated, for every body with the form, fails where the sum does not fit:
  the port group \<open>72057594037927936\<close> is \<open>2 ^ 56\<close>, the sum is \<open>2 ^ 64\<close>, and the port
  returned is 0.
\<close>

theorem extractDataPort_wraps_counterexample:
  "pasv_form ''0,0,0,0,72057594037927936,0'' ''72057594037927936'' ''0'' \<and>
   extractDataPort ''0,0,0,0,72057594037927936,0'' = Inr 0 \<and>
   dec_val ''72057594037927936'' * 256 + dec_val ''0'' = 2 ^ 64"
proof -
  have "pasv_form ''0,0,0,0,72057594037927936,0'' ''72057594037927936'' ''0''"
    unfolding pasv_form_def
    by (intro exI [of _ "''0''"]) (simp add: port_eval)
  then show ?thesis by (simp add: port_eval)
qed

text \<open>
  Claim C10, amended. \<^verbatim>\<open>extractDataPort\<close> checks no range: whenever the body
  contains the form it returns a port and no error; the port is \<open>p1 * 256 + p2\<close>
  modulo \<open>2 ^ 64\<close>, where a port group too large for an \<^verbatim>\<open>int\<close> counts as
  \<open>2 ^ 63 - 1\<close> (the value \<^verbatim>\<open>Atoi\<close> returns beside its range error), not as 0; so a
  first port group above 255 gives a port above 65535 as long as the groups and the sum
  fit.
\<close>

theorem extractDataPort_no_range_check:
  "(contains_pasv body \<longrightarrow> (\<exists>port. extractDataPort body = Inr port)) \<and>
   (leftmost_pasv body p1 p2
      \<longrightarrow> extractDataPort body =
            Inr (word_of_int (int (min (dec_val p1) (2 ^ 63 - 1)) * 256
                               + int (min (dec_val p2) (2 ^ 63 - 1))))) \<and>
   (leftmost_pasv body p1 p2 \<and> 255 < dec_val p1 \<and> dec_val p1 < 2 ^ 63 \<and> dec_val p2 < 2 ^ 63 \<and>
      dec_val p1 * 256 + dec_val p2 < 2 ^ 64
      \<longrightarrow> (\<exists>port. extractDataPort body = Inr port \<and> 65535 < unat port))"
proof (intro conjI impI)
  assume "contains_pasv body"
  then obtain q1 q2 where "leftmost_pasv body q1 q2"
    using contains_pasv_leftmost by blast
  then show "\<exists>port. extractDataPort body = Inr port"
    by (simp add: extractDataPort_leftmost)
next
  assume a: "leftmost_pasv body p1 p2"
  then obtain t where "pasv_form t p1 p2"
    unfolding leftmost_pasv_def by blast
  then have g: "digit_group p1" "digit_group p2"
    by (simp_all add: pasv_form_groups)
  have m: "\<And>n::nat. int (min n (2 ^ 63 - 1)) = (if n < 2 ^ 63 then int n else 2 ^ 63 - 1)"
    by (simp add: min_def)
  show "extractDataPort body =
            Inr (word_of_int (int (min (dec_val p1) (2 ^ 63 - 1)) * 256
                               + int (min (dec_val p2) (2 ^ 63 - 1))))"
    unfolding extractDataPort_leftmost [OF a] m by (simp add: Atoi_digit_group g)
next
  assume a: "leftmost_pasv body p1 p2 \<and> 255 < dec_val p1 \<and> dec_val p1 < 2 ^ 63 \<and> dec_val p2 < 2 ^ 63 \<and>
      dec_val p1 * 256 + dec_val p2 < 2 ^ 64"
  then obtain t where "pasv_form t p1 p2"
    unfolding leftmost_pasv_def by blast
  then have g: "digit_group p1" "digit_group p2"
    by (simp_all add: pasv_form_groups)
  have "extractDataPort body = Inr (word_of_int (int (dec_val p1) * 256 + int (dec_val p2)))"
    using a extractDataPort_leftmost [of body p1 p2] by (simp add: Atoi_digit_group g)
  moreover have "unat (word_of_int (int (dec_val p1) * 256 + int (dec_val p2)) :: uint)
      = dec_val p1 * 256 + dec_val p2"
    using a by (intro port_sum_fits) simp_all
  moreover have "65535 < dec_val p1 * 256 + dec_val p2"
    using a by simp
  ultimately show "\<exists>port. extractDataPort body = Inr port \<and> 65535 < unat port"
    by simp
qed

theorem extractDataPort_no_range_check_witness:
  "contains_pasv ''227 Entering Passive Mode (10,0,0,1,256,1)'' \<and>
   leftmost_pasv ''227 Entering Passive Mode (10,0,0,1,256,1)'' ''256'' ''1'' \<and>
   extractDataPort ''227 Entering Passive Mode (10,0,0,1,256,1)'' = Inr 65537 \<and>
   (\<exists>port. extractDataPort ''227 Entering Passive Mode (10,0,0,1,256,1)'' = Inr port
      \<and> 65535 < unat port)"
proof -
  have f: "FindStringSubmatch_port ''227 Entering Passive Mode (10,0,0,1,256,1)''
             = [''10,0,0,1,256,1'', ''256'' @ '','' @ ''1'']"
    by (simp add: port_eval)
  have l: "leftmost_pasv ''227 Entering Passive Mode (10,0,0,1,256,1)'' ''256'' ''1''"
    by (rule leftmost_pasv_of_match [OF f]) (simp_all add: port_eval)
  have c: "contains_pasv ''227 Entering Passive Mode (10,0,0,1,256,1)''"
    unfolding contains_pasv_iff f by simp
  have v: "dec_val ''256'' = 256" "dec_val ''1'' = 1"
    by (simp_all add: port_eval)
  show ?thesis
    using l c extractDataPort_no_range_check [of "''227 Entering Passive Mode (10,0,0,1,256,1)''" "''256''" "''1''"]
    by (simp add: v)
qed

text \<open>
  The claim as stated fails in two places: a group that \<^verbatim>\<open>Atoi\<close> cannot parse
  contributes \<open>2 ^ 63 - 1\<close> and not 0 (the port would be 7), and a first group above 255
  can give a port that is not above 65535, because the sum wraps around.
\<close>

theorem extractDataPort_failed_parse_counterexample:
  "Atoi ''99999999999999999999'' = (9223372036854775807, Some (ErrRange ''99999999999999999999'')) \<and>
   extractDataPort ''1,1,1,1,99999999999999999999,7'' = Inr 18446744073709551367 \<and>
   extractDataPort ''0,0,0,0,72057594037927936,0'' = Inr 0"
  by (simp add: port_eval)

section \<open>Reading a reply\<close>

lemma first_occurrence_unique:
  assumes "x \<notin> set xs" and "x \<notin> set xs'" and "xs @ x # ys = xs' @ x # ys'"
  shows "xs = xs' \<and> ys = ys'"
  using assms
  by (auto simp: append_eq_append_conv2 append_eq_Cons_conv Cons_eq_append_conv)

lemma first_LF_inside:
  assumes "LF \<in> set u" and "u @ v = l @ LF # rest" and "LF \<notin> set l"
  shows "takeWhile (\<lambda>x. x \<noteq> LF) u = l \<and> tl (dropWhile (\<lambda>x. x \<noteq> LF) u) @ v = rest"
proof -
  let ?l' = "takeWhile (\<lambda>x. x \<noteq> LF) u"
  let ?d = "dropWhile (\<lambda>x. x \<noteq> LF) u"
  have d: "?d \<noteq> []" using assms(1) by simp
  then have hd: "hd ?d = LF" using hd_dropWhile [of "\<lambda>x. x \<noteq> LF" u] by simp
  from d hd have dd: "?d = LF # tl ?d" by (cases ?d) auto
  have "u = ?l' @ ?d" by simp
  then have u: "u = ?l' @ LF # tl ?d" using dd by simp
  have n: "LF \<notin> set ?l'" by (auto dest: set_takeWhileD)
  have "?l' @ LF # (tl ?d @ v) = l @ LF # rest"
    using assms(2) u by (metis append_Cons append_assoc)
  with n assms(3) show ?thesis
    by (rule first_occurrence_unique)
qed

lemma first_LF_outside:
  assumes "LF \<notin> set u" and "u @ v = l @ LF # rest"
  shows "\<exists>l2. l = u @ l2 \<and> v = l2 @ LF # rest"
proof -
  from assms(2) obtain w where
    "(u = l @ w \<and> w @ v = LF # rest) \<or> (u @ w = l \<and> v = w @ LF # rest)"
    by (auto simp: append_eq_append_conv2)
  then show ?thesis
  proof
    assume a: "u = l @ w \<and> w @ v = LF # rest"
    have "w = []"
    proof (cases w)
      case Nil then show ?thesis .
    next
      case (Cons x xs)
      with a have "x = LF" by simp
      with a Cons assms(1) show ?thesis by simp
    qed
    with a show ?thesis by simp
  next
    assume "u @ w = l \<and> v = w @ LF # rest"
    then show ?thesis by blast
  qed
qed

lemma fill_tries_data:
  assumes "conn_Read (defaultBufSize - length (buf b)) ch = ((bs, None), ch')" and "bs \<noteq> []"
  shows "fill_tries (Suc i) b ch = (b\<lparr>buf := buf b @ bs\<rparr>, ch')"
  using assms by simp

lemma fill_data:
  assumes "\<not> closed ch" and "incoming ch = map Data cs @ later" and "cs \<noteq> []"
    and "[] \<notin> set cs" and "length (buf b) < defaultBufSize"
  shows "\<exists>d cs'. fill b ch = (b\<lparr>buf := buf b @ d\<rparr>, ch\<lparr>incoming := map Data cs' @ later\<rparr>)
           \<and> d @ concat cs' = concat cs \<and> [] \<notin> set cs'"
proof -
  from assms(3,4) obtain c cs0 where cs: "cs = c # cs0" and c: "c \<noteq> []" and cs0: "[] \<notin> set cs0"
    by (cases cs) auto
  let ?n = "defaultBufSize - length (buf b)"
  have n: "0 < ?n" using assms(5) by simp
  have f: "fill b ch = fill_tries (Suc 99) b ch"
    by (simp add: fill_def maxConsecutiveEmptyReads_def)
  show ?thesis
  proof (cases "length c \<le> ?n")
    case True
    then have "conn_Read ?n ch = ((c, None), ch\<lparr>incoming := map Data cs0 @ later\<rparr>)"
      using assms(1,2) by (simp add: conn_Read_def cs)
    then have "fill b ch = (b\<lparr>buf := buf b @ c\<rparr>, ch\<lparr>incoming := map Data cs0 @ later\<rparr>)"
      unfolding f using c by (rule fill_tries_data)
    then show ?thesis using cs cs0 by auto
  next
    case False
    then have "conn_Read ?n ch
        = ((take ?n c, None), ch\<lparr>incoming := map Data (drop ?n c # cs0) @ later\<rparr>)"
      using assms(1,2) by (simp add: conn_Read_def cs)
    moreover have "take ?n c \<noteq> []"
      using c n by simp
    ultimately have "fill b ch = (b\<lparr>buf := buf b @ take ?n c\<rparr>,
        ch\<lparr>incoming := map Data (drop ?n c # cs0) @ later\<rparr>)"
      unfolding f by (rule fill_tries_data)
    moreover have "take ?n c @ concat (drop ?n c # cs0) = concat cs"
      by (simp add: cs)
    moreover have "[] \<notin> set (drop ?n c # cs0)"
      using False cs0 by auto
    ultimately show ?thesis by blast
  qed
qed

lemma ReadString_loop_line:
  assumes "\<not> closed ch" and "incoming ch = map Data cs @ later" and "[] \<notin> set cs"
    and "rerr b = None" and "buf b @ concat cs = l @ LF # rest" and "LF \<notin> set l"
  shows "\<exists>b' cs'. ReadString_loop acc b ch
            = ((acc @ l @ [LF], None), b', ch\<lparr>incoming := map Data cs' @ later\<rparr>)
          \<and> rerr b' = None \<and> [] \<notin> set cs' \<and> buf b' @ concat cs' = rest"
  using assms
proof (induction acc b ch arbitrary: cs l rule: ReadString_loop.induct)
  case (1 acc b ch)
  show ?case
  proof (cases "LF \<in> set (buf b)")
    case True
    from first_LF_inside [OF True "1.prems"(5,6)]
    have t: "takeWhile (\<lambda>x. x \<noteq> LF) (buf b) = l"
      and r: "tl (dropWhile (\<lambda>x. x \<noteq> LF) (buf b)) @ concat cs = rest"
      by simp_all
    have "ch\<lparr>incoming := map Data cs @ later\<rparr> = ch"
      using "1.prems"(2) by simp
    then have "ReadString_loop acc b ch
        = ((acc @ l @ [LF], None), b\<lparr>buf := tl (dropWhile (\<lambda>x. x \<noteq> LF) (buf b))\<rparr>,
           ch\<lparr>incoming := map Data cs @ later\<rparr>)"
      using True t by (simp add: ReadString_loop.simps [of acc b ch])
    then show ?thesis
      using r "1.prems"(3,4) by fastforce
  next
    case noLF: False
    note none = "1.prems"(4)
    from first_LF_outside [OF noLF "1.prems"(5)] obtain l2 where
      l2: "l = buf b @ l2" "concat cs = l2 @ LF # rest" by blast
    have l2n: "LF \<notin> set l2" using "1.prems"(6) l2(1) by simp
    show ?thesis
    proof (cases "defaultBufSize \<le> length (buf b)")
      case True
      have "\<exists>b' cs'. ReadString_loop (acc @ buf b) (b\<lparr>buf := []\<rparr>) ch
            = (((acc @ buf b) @ l2 @ [LF], None), b', ch\<lparr>incoming := map Data cs' @ later\<rparr>)
          \<and> rerr b' = None \<and> [] \<notin> set cs' \<and> buf b' @ concat cs' = rest"
        using "1.prems"(1,2,3) none l2(2) l2n
        by (intro "1.IH"(1) [OF noLF none True]) simp_all
      moreover have "ReadString_loop acc b ch = ReadString_loop (acc @ buf b) (b\<lparr>buf := []\<rparr>) ch"
        using noLF none True by (simp add: ReadString_loop.simps [of acc b ch])
      ultimately show ?thesis by (simp add: l2(1))
    next
      case False
      have "cs \<noteq> []" using l2(2) by auto
      from fill_data [OF "1.prems"(1,2) this "1.prems"(3)] False obtain d cs1 where
        f: "fill b ch = (b\<lparr>buf := buf b @ d\<rparr>, ch\<lparr>incoming := map Data cs1 @ later\<rparr>)" and
        d: "d @ concat cs1 = concat cs" "[] \<notin> set cs1"
        by (metis not_le)
      have "\<exists>b' cs'. ReadString_loop acc (b\<lparr>buf := buf b @ d\<rparr>) (ch\<lparr>incoming := map Data cs1 @ later\<rparr>)
            = ((acc @ l @ [LF], None), b',
               ch\<lparr>incoming := map Data cs1 @ later\<rparr>\<lparr>incoming := map Data cs' @ later\<rparr>)
          \<and> rerr b' = None \<and> [] \<notin> set cs' \<and> buf b' @ concat cs' = rest"
      proof (intro "1.IH"(2) [OF noLF none False f [symmetric]])
        show "buf (b\<lparr>buf := buf b @ d\<rparr>) @ concat cs1 = l @ LF # rest"
          by (simp add: d(1) "1.prems"(5))
      qed (use "1.prems"(1,6) none d(2) in simp_all)
      moreover have "ReadString_loop acc b ch
          = ReadString_loop acc (b\<lparr>buf := buf b @ d\<rparr>) (ch\<lparr>incoming := map Data cs1 @ later\<rparr>)"
        using noLF none False f by (simp add: ReadString_loop.simps [of acc b ch])
      ultimately show ?thesis by simp
    qed
  qed
qed

lemma is_line_split: "is_line ln \<Longrightarrow> ln = butlast ln @ [LF] \<and> LF \<notin> set (butlast ln)"
  unfolding is_line_def by (metis append_butlast_last_id)

lemma terminal_here_MatchString: "terminal_here ln \<Longrightarrow> MatchString_terminal ln"
  by (cases ln) auto

lemma terminal_here_length: "terminal_here ln \<Longrightarrow> 4 \<le> length ln"
  by (induction ln rule: terminal_here.induct) auto

lemma MatchString_terminal_length: "MatchString_terminal ln \<Longrightarrow> 4 \<le> length ln"
  by (induction ln) (auto dest: terminal_here_length)

lemma Cmd_loop_reply:
  assumes "\<not> closed ch" and "incoming ch = map Data cs @ later" and "[] \<notin> set cs"
    and "rerr b = None" and "buf b @ concat cs = concat conts @ fin @ extra"
    and "list_all (\<lambda>ln. is_line ln \<and> \<not> MatchString_terminal ln) conts"
    and "is_line fin" and "MatchString_terminal fin"
  shows "\<exists>b' cs'. Cmd_loop response b ch
            = (Inr (response @ concat conts @ fin), b', ch\<lparr>incoming := map Data cs' @ later\<rparr>)
          \<and> [] \<notin> set cs' \<and> buf b' @ concat cs' = extra"
  using assms(1-6)
proof (induction conts arbitrary: response b ch cs)
  case Nil
  from is_line_split [OF assms(7)] have t: "fin = butlast fin @ [LF]" "LF \<notin> set (butlast fin)"
    by simp_all
  have "buf b @ concat cs = butlast fin @ LF # extra"
    using Nil.prems(5) t(1) by (metis append.assoc append_Cons append_Nil concat.simps(1))
  from ReadString_loop_line [OF Nil.prems(1,2,3,4) this t(2), of "[]"] obtain b' cs' where
    r: "ReadString b ch = ((fin, None), b', ch\<lparr>incoming := map Data cs' @ later\<rparr>)"
       "[] \<notin> set cs'" "buf b' @ concat cs' = extra"
    using t(1) by (auto simp: ReadString_def)
  have "Cmd_loop response b ch = (Inr (response @ fin), b', ch\<lparr>incoming := map Data cs' @ later\<rparr>)"
    using r(1) assms(8) by (simp add: Cmd_loop.simps [of response b ch])
  with r(2,3) show ?case by auto
next
  case (Cons ln conts)
  from Cons.prems(6) have ln: "is_line ln" "\<not> MatchString_terminal ln"
    and rest: "list_all (\<lambda>ln. is_line ln \<and> \<not> MatchString_terminal ln) conts"
    by simp_all
  from is_line_split [OF ln(1)] have t: "ln = butlast ln @ [LF]" "LF \<notin> set (butlast ln)"
    by simp_all
  have "buf b @ concat cs = ln @ concat conts @ fin @ extra"
    using Cons.prems(5) by simp
  then have "buf b @ concat cs = butlast ln @ LF # (concat conts @ fin @ extra)"
    using t(1) by (metis append.assoc append_Cons append_Nil)
  from ReadString_loop_line [OF Cons.prems(1,2,3,4) this t(2), of "[]"] obtain b1 cs1 where
    r: "ReadString b ch = ((ln, None), b1, ch\<lparr>incoming := map Data cs1 @ later\<rparr>)"
       "rerr b1 = None" "[] \<notin> set cs1" "buf b1 @ concat cs1 = concat conts @ fin @ extra"
    using t(1) by (auto simp: ReadString_def)
  have step: "Cmd_loop response b ch
      = Cmd_loop (response @ ln) b1 (ch\<lparr>incoming := map Data cs1 @ later\<rparr>)"
    using r(1) ln(2) by (simp add: Cmd_loop.simps [of response b ch])
  have "\<exists>b' cs'. Cmd_loop (response @ ln) b1 (ch\<lparr>incoming := map Data cs1 @ later\<rparr>)
            = (Inr ((response @ ln) @ concat conts @ fin), b',
               ch\<lparr>incoming := map Data cs1 @ later\<rparr>\<lparr>incoming := map Data cs' @ later\<rparr>)
          \<and> [] \<notin> set cs' \<and> buf b' @ concat cs' = extra"
    using Cons.prems(1) r(2,3,4) rest by (intro Cons.IH) simp_all
  with step show ?case by simp
qed

lemma conn_Write_ok:
  "write_ok ch \<Longrightarrow> \<exists>ch'. conn_Write bs ch = (None, ch') \<and> \<not> closed ch'
      \<and> incoming ch' = incoming ch \<and> outgoing ch' = outgoing ch @ bs"
  by (auto simp: write_ok_def conn_Write_def split: list.splits)

lemma Cmd_on_reply:
  assumes "write_ok (control c)"
    and "incoming (control c) = map Data cs @ later" and "[] \<notin> set cs"
    and "concat cs = concat conts @ fin @ extra"
    and "list_all (\<lambda>ln. is_line ln \<and> \<not> MatchString_terminal ln) conts"
    and "is_line fin" and "terminal_here fin"
  shows "\<exists>ch' cs' dropped.
           Cmd c command arg =
             ((case Atoi (take 3 (concat conts @ fin)) of
                 (t, Some e) \<Rightarrow> (0, concat conts @ fin, Some e)
               | (t, None) \<Rightarrow> (word_of_int t, concat conts @ fin, None)),
              c\<lparr>control := ch'\<rparr>)
         \<and> incoming ch' = map Data cs' @ later \<and> [] \<notin> set cs' \<and> extra = dropped @ concat cs'
         \<and> outgoing ch' = outgoing (control c) @ command @ '' '' @ arg @ CRLF
         \<and> \<not> closed ch'"
proof -
  from conn_Write_ok [OF assms(1)] obtain ch1 where
    w: "conn_Write (command @ '' '' @ arg @ CRLF) (control c) = (None, ch1)" "\<not> closed ch1"
       "incoming ch1 = incoming (control c)"
       "outgoing ch1 = outgoing (control c) @ command @ '' '' @ arg @ CRLF"
    by blast
  have "buf NewReader @ concat cs = concat conts @ fin @ extra"
    using assms(4) by (simp add: NewReader_def)
  from Cmd_loop_reply [OF w(2) _ assms(3) _ this assms(5,6) terminal_here_MatchString [OF assms(7)],
      of later "[]"]
  obtain b' cs' where
    l: "Cmd_loop [] NewReader ch1
          = (Inr (concat conts @ fin), b', ch1\<lparr>incoming := map Data cs' @ later\<rparr>)"
       "[] \<notin> set cs'" "buf b' @ concat cs' = extra"
    using w(3) assms(2) by (auto simp: NewReader_def)
  let ?ch = "ch1\<lparr>incoming := map Data cs' @ later\<rparr>"
  have "Cmd c command arg =
             ((case Atoi (take 3 (concat conts @ fin)) of
                 (t, Some e) \<Rightarrow> (0, concat conts @ fin, Some e)
               | (t, None) \<Rightarrow> (word_of_int t, concat conts @ fin, None)),
              c\<lparr>control := ?ch\<rparr>)"
    using w(1) l(1) by (simp add: Cmd_def split: prod.splits option.splits)
  moreover have "incoming ?ch = map Data cs' @ later" "\<not> closed ?ch"
    "outgoing ?ch = outgoing (control c) @ command @ '' '' @ arg @ CRLF"
    using w(2,4) by simp_all
  ultimately show ?thesis using l(2,3) by blast
qed

lemma terminal_here_cases:
  assumes "terminal_here ln"
  obtains a b c r where "ln = a # b # c # CHR '' '' # r" "is_digit a" "is_digit b" "is_digit c"
  using assms by (induction ln rule: terminal_here.induct) auto

lemma digit_val_bound: "is_digit a \<Longrightarrow> digit_val a < 10"
  by (auto simp: is_digit_def digit_val_def)

lemma is_digit_not_sign: "is_digit a \<Longrightarrow> a \<noteq> CHR ''-'' \<and> a \<noteq> CHR ''+''"
  by (auto simp: is_digit_def)

lemma dec_val_three: 
  assumes "digit_val a < 10" "digit_val b < 10" "digit_val c < 10"
  shows "dec_val [a, b, c] < 1000"
  using assms by (simp add: dec_val_def)

lemma Atoi_three_digits:
  assumes "terminal_here ln"
  shows "Atoi (take 3 ln) = (int (dec_val (take 3 ln)), None)"
proof -
  from assms obtain a b c r where ln: "ln = a # b # c # CHR '' '' # r"
    and dg: "is_digit a" "is_digit b" "is_digit c"
    by (rule terminal_here_cases)
  have g: "digit_group [a, b, c]"
    using dg by (simp add: digit_group_def)
  have "dec_val [a, b, c] < 1000"
    using dg by (intro dec_val_three digit_val_bound)
  then have "dec_val [a, b, c] < 2 ^ 63"
    by simp
  then have "Atoi [a, b, c] = (int (dec_val [a, b, c]), None)"
    by (simp only: Atoi_digit_group [OF g] if_True)
  then show ?thesis
    by (simp add: ln)
qed

lemma fill_tries_numeral:
  "fill_tries (numeral k) b ch =
     (case conn_Read (defaultBufSize - length (buf b)) ch of
        ((bs, Some e), ch') \<Rightarrow> (b\<lparr>buf := buf b @ bs, rerr := Some e\<rparr>, ch')
      | ((bs, None), ch') \<Rightarrow>
          if bs \<noteq> [] then (b\<lparr>buf := buf b @ bs\<rparr>, ch') else fill_tries (pred_numeral k) b ch')"
  by (simp add: numeral_eq_Suc)

lemmas run_simps =
  Cmd_def Cmd_loop.simps ReadString_def ReadString_loop.simps fill_def fill_tries_numeral
  maxConsecutiveEmptyReads_def defaultBufSize_def NewReader_def conn_Read_def conn_Write_def
  conn_Close_def CRLF_def CR_def LF_def Atoi_def dec_val_def digit_val_def is_digit_def
  ErrClosed_def

text \<open>
  Claim C1, amended. Let the control channel accept the command and deliver, in any
  non-empty pieces, a reply made of continuation lines in which three digits and a space
  stand nowhere, then a terminal line that starts with three digits and a space. Then
  \<^verbatim>\<open>Cmd\<close> returns all these lines, the terminal one included, as one response; its
  code is what \<^verbatim>\<open>Atoi\<close> makes of the first three bytes of the response, that is of
  its first line; when these are the first three bytes of the terminal line too, the code
  is the number they denote and there is no error.
\<close>

theorem Cmd_reassembles_reply:
  assumes "write_ok (control c)"
    and "incoming (control c) = map Data cs @ later" and "[] \<notin> set cs"
    and "concat cs = concat conts @ fin @ extra"
    and "list_all (\<lambda>ln. is_line ln \<and> \<not> MatchString_terminal ln) conts"
    and "is_line fin" and "terminal_here fin"
  shows "fst (Cmd c command arg) =
           (case Atoi (take 3 (concat conts @ fin)) of
              (t, Some e) \<Rightarrow> (0, concat conts @ fin, Some e)
            | (t, None) \<Rightarrow> (word_of_int t, concat conts @ fin, None)) \<and>
         (take 3 (concat conts @ fin) = take 3 fin \<longrightarrow>
            fst (Cmd c command arg) = (of_nat (dec_val (take 3 fin)), concat conts @ fin, None))"
proof -
  from Cmd_on_reply [OF assms, of command arg] obtain ch' where
    "Cmd c command arg =
             ((case Atoi (take 3 (concat conts @ fin)) of
                 (t, Some e) \<Rightarrow> (0, concat conts @ fin, Some e)
               | (t, None) \<Rightarrow> (word_of_int t, concat conts @ fin, None)),
              c\<lparr>control := ch'\<rparr>)"
    by blast
  then have 1: "fst (Cmd c command arg) =
           (case Atoi (take 3 (concat conts @ fin)) of
              (t, Some e) \<Rightarrow> (0, concat conts @ fin, Some e)
            | (t, None) \<Rightarrow> (word_of_int t, concat conts @ fin, None))"
    by (simp only: fst_conv)
  have 2: "fst (Cmd c command arg) = (of_nat (dec_val (take 3 fin)), concat conts @ fin, None)"
    if "take 3 (concat conts @ fin) = take 3 fin"
    unfolding 1 that Atoi_three_digits [OF assms(7)] by simp
  show ?thesis
  proof (intro conjI impI)
    show "fst (Cmd c command arg) =
           (case Atoi (take 3 (concat conts @ fin)) of
              (t, Some e) \<Rightarrow> (0, concat conts @ fin, Some e)
            | (t, None) \<Rightarrow> (word_of_int t, concat conts @ fin, None))"
      by (rule 1)
  next
    assume "take 3 (concat conts @ fin) = take 3 fin"
    then show "fst (Cmd c command arg) = (of_nat (dec_val (take 3 fin)), concat conts @ fin, None)"
      by (rule 2)
  qed
qed

theorem Cmd_reassembles_reply_witness:
  "fst (Cmd \<lparr>control = \<lparr>incoming = [Data (''226-Listing follows'' @ CRLF @ '' alp''),
                                      Data (''ha.txt'' @ CRLF @ '' beta.txt'' @ CRLF @ ''226 Transfer''),
                                      Data ('' complete'' @ CRLF)],
                          outgoing = [], wfaults = [], cfault = None, closed = False\<rparr>,
              hostname = ''localhost''\<rparr> ''STAT'' ''.'')
     = (226, ''226-Listing follows'' @ CRLF @ '' alpha.txt'' @ CRLF @ '' beta.txt'' @ CRLF
              @ ''226 Transfer complete'' @ CRLF, None)"
proof -
  let ?c = "\<lparr>control = \<lparr>incoming = [Data (''226-Listing follows'' @ CRLF @ '' alp''),
                                      Data (''ha.txt'' @ CRLF @ '' beta.txt'' @ CRLF @ ''226 Transfer''),
                                      Data ('' complete'' @ CRLF)],
                          outgoing = [], wfaults = [], cfault = None, closed = False\<rparr>,
              hostname = ''localhost''\<rparr>"
  let ?cs = "[''226-Listing follows'' @ CRLF @ '' alp'',
              ''ha.txt'' @ CRLF @ '' beta.txt'' @ CRLF @ ''226 Transfer'',
              '' complete'' @ CRLF]"
  let ?conts = "[''226-Listing follows'' @ CRLF, '' alpha.txt'' @ CRLF, '' beta.txt'' @ CRLF]"
  let ?fin = "''226 Transfer complete'' @ CRLF"
  have h: "write_ok (control ?c)" "incoming (control ?c) = map Data ?cs @ []" "[] \<notin> set ?cs"
    "concat ?cs = concat ?conts @ ?fin @ []"
    "list_all (\<lambda>ln. is_line ln \<and> \<not> MatchString_terminal ln) ?conts"
    "is_line ?fin" "terminal_here ?fin"
    by (simp_all add: write_ok_def is_line_def CRLF_def CR_def LF_def is_digit_def)
  have v: "dec_val (take 3 ?fin) = 226" "take 3 (concat ?conts @ ?fin) = take 3 ?fin"
    by (simp_all add: dec_val_def digit_val_def CRLF_def)
  have "fst (Cmd ?c ''STAT'' ''.'') = (of_nat (dec_val (take 3 ?fin)), concat ?conts @ ?fin, None)"
    by (rule Cmd_reassembles_reply [OF h, of "''STAT''" "''.''", THEN conjunct2, THEN mp, OF v(2)])
  then show ?thesis
    unfolding v(1) by simp
qed

text \<open>
  The claim as stated takes the code from the final line. With three continuation lines
  of free text before \<^verbatim>\<open>226 Transfer complete\<close> the code is 0 and \<^verbatim>\<open>Cmd\<close>
  returns a syntax error; with a first line that starts \<^verbatim>\<open>150-\<close> the code is 150.
\<close>

theorem Cmd_code_of_first_line_counterexample:
  "fst (Cmd \<lparr>control = \<lparr>incoming = [Data (''Directory status:'' @ CRLF @ '' alpha.txt'' @ CRLF
                                              @ '' beta.txt'' @ CRLF @ ''226 Transfer complete'' @ CRLF)],
                          outgoing = [], wfaults = [], cfault = None, closed = False\<rparr>,
              hostname = ''localhost''\<rparr> ''STAT'' ''.'')
     = (0, ''Directory status:'' @ CRLF @ '' alpha.txt'' @ CRLF @ '' beta.txt'' @ CRLF
            @ ''226 Transfer complete'' @ CRLF, Some (ErrSyntax ''Dir'')) \<and>
   fst (Cmd \<lparr>control = \<lparr>incoming = [Data (''150-Status follows'' @ CRLF @ '' alpha.txt'' @ CRLF
                                              @ '' beta.txt'' @ CRLF @ ''226 Transfer complete'' @ CRLF)],
                          outgoing = [], wfaults = [], cfault = None, closed = False\<rparr>,
              hostname = ''localhost''\<rparr> ''STAT'' ''.'')
     = (150, ''150-Status follows'' @ CRLF @ '' alpha.txt'' @ CRLF @ '' beta.txt'' @ CRLF
            @ ''226 Transfer complete'' @ CRLF, None)"
  by (simp add: run_simps)




section \<open>Where the session loses an error or a connection\<close>

text \<open>
  Claim C6 says that \<^verbatim>\<open>Login\<close> returns the error of a failed \<^verbatim>\<open>USER\<close>
  exchange. Here the read of the \<^verbatim>\<open>USER\<close> reply times out, so that exchange
  fails with the transport's error, and the \<^verbatim>\<open>PASS\<close> exchange then gets its reply:
  \<^verbatim>\<open>Login\<close> returns no error at all.
\<close>

theorem Login_drops_USER_error:
  "Cmd \<lparr>control = \<lparr>incoming = [Fault (NetError ''i/o timeout''),
                                 Data (''230 Login successful.'' @ CRLF)],
                     outgoing = [], wfaults = [], cfault = None, closed = False\<rparr>,
         hostname = ''localhost''\<rparr> ''USER'' ''anonymous''
     = ((0, [], Some (NetError ''i/o timeout'')),
        \<lparr>control = \<lparr>incoming = [Data (''230 Login successful.'' @ CRLF)],
                     outgoing = ''USER anonymous'' @ CRLF, wfaults = [], cfault = None,
                     closed = False\<rparr>,
         hostname = ''localhost''\<rparr>)
   \<and> Login \<lparr>control = \<lparr>incoming = [Fault (NetError ''i/o timeout''),
                                     Data (''230 Login successful.'' @ CRLF)],
                         outgoing = [], wfaults = [], cfault = None, closed = False\<rparr>,
             hostname = ''localhost''\<rparr> ''anonymous'' ''anonymous@''
     = (None,
        \<lparr>control = \<lparr>incoming = [],
                     outgoing = ''USER anonymous'' @ CRLF @ ''PASS anonymous@'' @ CRLF,
                     wfaults = [], cfault = None, closed = False\<rparr>,
         hostname = ''localhost''\<rparr>)"
  by (simp add: Login_def run_simps)

text \<open>
  Claim C7 says that \<^verbatim>\<open>Logout\<close> closes the control channel also when the reply to
  \<^verbatim>\<open>QUIT\<close> cannot be read. Here the server has gone away, the read meets the end
  of the stream, and \<^verbatim>\<open>Logout\<close> returns that error with the channel still open.
\<close>

theorem Logout_leaves_channel_open:
  "Logout \<lparr>control = \<lparr>incoming = [], outgoing = [], wfaults = [], cfault = None,
                        closed = False\<rparr>,
            hostname = ''localhost''\<rparr>
     = (Some EOF,
        \<lparr>control = \<lparr>incoming = [], outgoing = ''QUIT '' @ CRLF, wfaults = [], cfault = None,
                     closed = False\<rparr>,
         hostname = ''localhost''\<rparr>)"
  by (simp add: Logout_def run_simps)

text \<open>
  Claim C5 says that a transfer returns every failure as an error value, also when the
  dial to the data port fails. Here the server answers \<^verbatim>\<open>PASV\<close> and \<^verbatim>\<open>TYPE\<close>
  as it should and nothing listens on the port it names: each of the three transfer
  functions panics, after it has dialled \<^verbatim>\<open>localhost:52718\<close>.
\<close>

theorem transfer_panics_when_dial_fails:
  "DownloadFile
     \<lparr>control = \<lparr>incoming = [Data (''227 Entering Passive Mode (127,0,0,1,205,238).'' @ CRLF),
                               Data (''200 Switching to Binary mode.'' @ CRLF)],
                  outgoing = [], wfaults = [], cfault = None, closed = False\<rparr>,
      hostname = ''localhost''\<rparr>
     ''/up/uploaded.txt'' ''download_test.txt'' BINARY 5
     \<lparr>net = (\<lambda>addr. Inl (NetError ''connection refused'')),
      files = (\<lambda>name. Inl (NetError ''no such file or directory'')),
      dialled = [], data_conn = None, local_file = None\<rparr>
   = (Panics,
      \<lparr>control = \<lparr>incoming = [],
                   outgoing = ''PASV '' @ CRLF @ ''TYPE I'' @ CRLF @ ''RETR /up/uploaded.txt'' @ CRLF,
                   wfaults = [], cfault = None, closed = False\<rparr>,
       hostname = ''localhost''\<rparr>,
      \<lparr>net = (\<lambda>addr. Inl (NetError ''connection refused'')),
       files = (\<lambda>name. Inl (NetError ''no such file or directory'')),
       dialled = [''localhost:52718''], data_conn = None, local_file = None\<rparr>)
   \<and> fst (GetBuffer
     \<lparr>control = \<lparr>incoming = [Data (''227 Entering Passive Mode (127,0,0,1,205,238).'' @ CRLF),
                               Data (''200 Switching to Binary mode.'' @ CRLF)],
                  outgoing = [], wfaults = [], cfault = None, closed = False\<rparr>,
      hostname = ''localhost''\<rparr>
     ''/up/uploaded.txt'' BINARY 5
     \<lparr>net = (\<lambda>addr. Inl (NetError ''connection refused'')),
      files = (\<lambda>name. Inl (NetError ''no such file or directory'')),
      dialled = [], data_conn = None, local_file = None\<rparr>) = Panics
   \<and> fst (UploadFile
     \<lparr>control = \<lparr>incoming = [Data (''227 Entering Passive Mode (127,0,0,1,205,238).'' @ CRLF),
                               Data (''200 Switching to Binary mode.'' @ CRLF)],
                  outgoing = [], wfaults = [], cfault = None, closed = False\<rparr>,
      hostname = ''localhost''\<rparr>
     ''client_test.go'' ''/up/uploaded.txt'' BINARY 5
     \<lparr>net = (\<lambda>addr. Inl (NetError ''connection refused'')),
      files = (\<lambda>name. Inl (NetError ''no such file or directory'')),
      dialled = [], data_conn = None, local_file = None\<rparr>) = Panics"
  by (simp add: DownloadFile_def GetBuffer_def UploadFile_def run_simps checkResponseCode_def
      extractDataPort_def port_match_here_def digits1_def BINARY_def dec.simps)

end
